theory Spec2Isabelle
  imports Complex_Main "HOL-Library.Multiset" "HOL-Library.Log_Nat"
begin

section \<open>Data model\<close>

text \<open>
  A Sudoku array is a two-dimensional numpy array of Python integers. It is modelled as the
  list of its rows; a list of rows of unequal length is not an array (\<open>is_ndarray\<close>).
  An array with no rows is taken to have shape \<open>(0, 0)\<close>, which is the only empty array
  the program itself builds (\<open>np.zeros((0, 0))\<close>).
\<close>

type_synonym grid = "int list list"

text \<open>
  Every \<open>raise\<close> of the source is one constructor; the last four are raised by Python
  and numpy themselves (the reduction of an empty array, an index out of range, \<open>int()\<close> of
  a complex number, and a number beyond the floats).
\<close>

datatype error =
    NotNumpyArray
  | NotSquaredSize
  | MaxValueOverflow
  | PosOutOfRange
  | SizeNotIntOrSquared
  | FullValueOverflow
  | FullInconsistent
  | EmptyReduction
  | IndexError
  | TypeError
  | OverflowError

definition shape0 :: "grid \<Rightarrow> nat" where
  "shape0 g = length g"

definition shape1 :: "grid \<Rightarrow> nat" where
  "shape1 g = (case g of [] \<Rightarrow> 0 | r # _ \<Rightarrow> length r)"

definition is_ndarray :: "grid \<Rightarrow> bool" where
  "is_ndarray g = list_all (\<lambda>r. length r = shape1 g) g"

text \<open>\<open>arr[x, y] = v\<close> on an array, for a position inside it.\<close>

definition upd :: "grid \<Rightarrow> nat \<Rightarrow> nat \<Rightarrow> int \<Rightarrow> grid" where
  "upd g x y v = g[x := (g ! x)[y := v]]"

text \<open>
  The integer part of the square root of a natural number, found by searching downwards.
  It is the value of \<open>int(n ** (1/2))\<close> for \<open>0 \<le> n < 2^52\<close>: there the float root of a
  square is exact, and the float root of any other integer lies strictly between two
  integers. \<open>available_digits\<close> takes this root of the number of rows of an array, which is
  an array that exists in memory.
\<close>

fun isqrt_below :: "nat \<Rightarrow> nat \<Rightarrow> nat" where
  "isqrt_below n 0 = 0"
| "isqrt_below n (Suc m) = (if Suc m * Suc m \<le> n then Suc m else isqrt_below n m)"

definition isqrt :: "nat \<Rightarrow> nat" where
  "isqrt n = isqrt_below n n"

text \<open>
  Python indexing of a sequence of length \<open>n\<close>: a negative index counts from the end,
  anything outside \<open>[-n, n)\<close> raises.
\<close>

definition py_index :: "nat \<Rightarrow> int \<Rightarrow> error + nat" where
  "py_index n k =
     (if 0 \<le> k \<and> k < int n then Inr (nat k)
      else if - int n \<le> k \<and> k < 0 then Inr (nat (int n + k))
      else Inl IndexError)"

text \<open>
  \<open>my, mx = np.meshgrid(np.arange(0, n0), np.arange(0, n0))\<close>, both flattened: cell
  number \<open>i\<close> in row-major order has row \<open>mx[i]\<close> and column \<open>my[i]\<close>.
\<close>

definition mx :: "nat \<Rightarrow> nat list" where
  "mx n0 = map (\<lambda>i. i div n0) [0..<n0 * n0]"

definition my :: "nat \<Rightarrow> nat list" where
  "my n0 = map (\<lambda>i. i mod n0) [0..<n0 * n0]"

text \<open>
  The seeded generator of \<open>random\<close>: \<open>random.shuffle\<close> of a list of length \<open>n\<close> draws a
  permutation of the indices \<open>0..<n\<close> from the generator's state and moves the state on.
  The state after \<open>random.seed(seed)\<close> is the argument \<open>st\<close> of the functions below.
\<close>

type_synonym 's rng = "'s \<Rightarrow> nat \<Rightarrow> nat list \<times> 's"

definition py_shuffle :: "'s rng \<Rightarrow> 's \<Rightarrow> 'a list \<Rightarrow> 'a list \<times> 's" where
  "py_shuffle rng st xs = (case rng st (length xs) of (p, st') \<Rightarrow> (map (\<lambda>k. xs ! k) p, st'))"

definition perm_rng :: "'s rng \<Rightarrow> bool" where
  "perm_rng rng = (\<forall>st n. mset (fst (rng st n)) = mset [0..<n])"

definition id_rng :: "unit rng" where
  "id_rng st n = ([0..<n], st)"

definition rev_rng :: "unit rng" where
  "rev_rng st n = (rev [0..<n], st)"

section \<open>available\_digits\<close>

text \<open>\<open>np.nonzero(sudoku_array == 0)\<close>: the positions holding 0, in row-major order.\<close>

definition zero_positions :: "grid \<Rightarrow> (nat \<times> nat) list" where
  "zero_positions g =
     concat (map (\<lambda>x. map (\<lambda>y. (x, y)) (filter (\<lambda>y. g ! x ! y = 0) [0..<length (g ! x)]))
                 [0..<length g])"

text \<open>The row, the column and the inner box of a position, concatenated.\<close>

definition exist_lst :: "grid \<Rightarrow> nat \<Rightarrow> nat \<Rightarrow> nat \<Rightarrow> int list" where
  "exist_lst g n1 ix iy =
     (let ix1 = ix div n1; iy1 = iy div n1
      in g ! ix @ map (\<lambda>r. r ! iy) g
         @ concat (map (\<lambda>r. take n1 (drop (iy1 * n1) r)) (take n1 (drop (ix1 * n1) g))))"

text \<open>
  \<open>list(set(range(1, 1+n0)) - set(exist_lst))\<close> is a list, without repetition, of the digits
  of \<open>1..n0\<close> that are not in \<open>exist_lst\<close>. In which order it lists them is decided by the
  hash tables of CPython, not by the program. So the expression is a parameter of the model:
  \<open>lister\<close> is the type of all the functions that list this difference in some order, and
  every function below that reaches \<open>available_digits\<close> takes one. What is proved for
  every \<open>sl\<close> holds for the order of CPython.
\<close>

typedef lister = "{sl :: nat \<Rightarrow> int list \<Rightarrow> int list.
                    \<forall>n0 exist_lst. distinct (sl n0 exist_lst)
                       \<and> set (sl n0 exist_lst) = {1..int n0} - set exist_lst}"
  morphisms list_of_difference Abs_lister
  by (rule exI[of _ "\<lambda>n0 exist_lst. filter (\<lambda>v. v \<notin> set exist_lst) [1..int n0]"]) auto

setup_lifting type_definition_lister

text \<open>
  The listing in ascending order. For an array of side 4 it is the order of CPython: both
  sets live in tables of 8 slots, where each of the digits 1..4 has the slot of its own
  number. The evaluations below are at side 4.
\<close>

lift_definition ascending :: lister
  is "\<lambda>n0 exist_lst. filter (\<lambda>v. v \<notin> set exist_lst) [1..int n0]"
  by auto

definition avail_at :: "lister \<Rightarrow> grid \<Rightarrow> nat \<Rightarrow> nat \<Rightarrow> nat \<Rightarrow> nat \<Rightarrow> int list" where
  "avail_at sl g n0 n1 ix iy = list_of_difference sl n0 (exist_lst g n1 ix iy)"

definition available_digits ::
  "lister \<Rightarrow> grid \<Rightarrow> (int \<times> int) option \<Rightarrow> error + (int list list \<times> nat list \<times> nat list)" where
  "available_digits sl sudoku_array pos =
     (if \<not> is_ndarray sudoku_array then Inl NotNumpyArray
      else
        let n0 = shape0 sudoku_array; n1 = isqrt n0 in
        if n0 \<noteq> shape1 sudoku_array \<or> n0 \<noteq> n1 * n1 then Inl NotSquaredSize
        else if concat sudoku_array = [] then Inl EmptyReduction
        else if Max (set (concat sudoku_array)) > int n0 then Inl MaxValueOverflow
        else
          (case pos of
             None \<Rightarrow>
               let ps = zero_positions sudoku_array
               in Inr (map (\<lambda>(ix, iy). avail_at sl sudoku_array n0 n1 ix iy) ps,
                       map fst ps, map snd ps)
           | Some (pos_x, pos_y) \<Rightarrow>
               if pos_x < 0 \<or> pos_x \<ge> int n0 \<or> pos_y < 0 \<or> pos_y \<ge> int n0
               then Inl PosOutOfRange
               else Inr ([avail_at sl sudoku_array n0 n1 (nat pos_x) (nat pos_y)],
                         [nat pos_x], [nat pos_y])))"

section \<open>gen\_sudoku\_full\<close>

record 's gen_state =
  st_full :: grid
  st_avail_lst :: "int list list"
  st_i :: int
  st_rnd :: 's

text \<open>
  The inner loop \<open>while len(avail_lst[i-1]) == 1\<close>: it pops the frames that hold one
  digit only and clears their cells.
\<close>

function rollback :: "nat \<Rightarrow> grid \<Rightarrow> int list list \<Rightarrow> int \<Rightarrow> error + (grid \<times> int list list \<times> int)" where
  "rollback n0 g al i =
     (case py_index (length al) (i - 1) of
        Inl e \<Rightarrow> Inl e
      | Inr j \<Rightarrow>
          if length (al ! j) = 1 then
            (case py_index (n0 * n0) (i - 1) of
               Inl e \<Rightarrow> Inl e
             | Inr c \<Rightarrow> rollback n0 (upd g (mx n0 ! c) (my n0 ! c) 0) (butlast al) (i - 1))
          else Inr (g, al, i))"
  by pat_completeness auto
termination
  by (relation "measure (\<lambda>(n0, g, al, i). length al)")
     (auto simp: py_index_def split: if_splits)

text \<open>One pass through the body of \<open>while i < len(mx)\<close>.\<close>

definition gen_step :: "lister \<Rightarrow> 's rng \<Rightarrow> nat \<Rightarrow> 's gen_state \<Rightarrow> error + 's gen_state" where
  "gen_step sl rng n0 s =
     (case py_index (n0 * n0) (st_i s) of
        Inl e \<Rightarrow> Inl e
      | Inr c \<Rightarrow>
         (case available_digits sl (st_full s) (Some (int (mx n0 ! c), int (my n0 ! c))) of
            Inl e \<Rightarrow> Inl e
          | Inr (a, _, _) \<Rightarrow>
              let a_lst = a ! 0 in
              if length a_lst = 0 then
                (case rollback n0 (st_full s) (st_avail_lst s) (st_i s) of
                   Inl e \<Rightarrow> Inl e
                 | Inr (g, al, i) \<Rightarrow>
                    (case py_index (length al) (i - 1) of
                       Inl e \<Rightarrow> Inl e
                     | Inr j \<Rightarrow>
                        (case al ! j of
                           [] \<Rightarrow> Inl IndexError
                         | _ # f \<Rightarrow>
                            (case f of
                               [] \<Rightarrow> Inl IndexError
                             | v # _ \<Rightarrow>
                                (case py_index (n0 * n0) (i - 1) of
                                   Inl e \<Rightarrow> Inl e
                                 | Inr c' \<Rightarrow>
                                     Inr (s\<lparr>st_full := upd g (mx n0 ! c') (my n0 ! c') v,
                                            st_avail_lst := al[j := f],
                                            st_i := i\<rparr>))))))
              else
                (case py_shuffle rng (st_rnd s) a_lst of
                   (a_sh, st') \<Rightarrow>
                     Inr \<lparr>st_full = upd (st_full s) (mx n0 ! c) (my n0 ! c) (a_sh ! 0),
                          st_avail_lst = st_avail_lst s @ [a_sh],
                          st_i = st_i s + 1,
                          st_rnd = st'\<rparr>)))"

text \<open>
  The loop itself. Whether it ends is a property to be proved, so a run that never leaves
  the loop has the value \<open>None\<close>.
\<close>

partial_function (option) gen_loop :: "lister \<Rightarrow> 's rng \<Rightarrow> nat \<Rightarrow> 's gen_state \<Rightarrow> (error + grid) option" where
  "gen_loop sl rng n0 s =
     (if st_i s < int (length (mx n0)) then
        (case gen_step sl rng n0 s of
           Inl e \<Rightarrow> Some (Inl e)
         | Inr s' \<Rightarrow> gen_loop sl rng n0 s')
      else Some (Inr (st_full s)))"

declare gen_loop.simps [code]

text \<open>
  \<open>int(array_size ** (1/2))\<close> is computed by the float power of Python, on any integer the
  caller passes: it raises for an integer beyond the floats, gives a complex number for a
  negative one (on which \<open>int()\<close> raises), and is rounded for large ones. It is the parameter
  \<open>int_root\<close> of the model, so that the size check is stated for whatever the power gives.
\<close>

definition gen_sudoku_full ::
  "lister \<Rightarrow> (int \<Rightarrow> error + int) \<Rightarrow> 's rng \<Rightarrow> 's \<Rightarrow> int \<Rightarrow> (error + grid) option" where
  "gen_sudoku_full sl int_root rng st array_size =
     (case int_root array_size of
        Inl e \<Rightarrow> Some (Inl e)
      | Inr r \<Rightarrow>
          if array_size \<noteq> r * r then Some (Inl SizeNotIntOrSquared)
          else
            let n0 = nat array_size
            in gen_loop sl rng n0
                 \<lparr>st_full = replicate n0 (replicate n0 0), st_avail_lst = [], st_i = 0,
                  st_rnd = st\<rparr>)"

text \<open>
  The values of \<open>int(n ** (1/2))\<close> that are beyond doubt: the integer square root for
  \<open>0 \<le> n < 2^52\<close>, the \<open>TypeError\<close> of \<open>int()\<close> on a complex number for a negative \<open>n\<close> within the
  floats, and the \<open>OverflowError\<close> of the conversion beyond the floats. Between \<open>2^52\<close> and the
  end of the floats the value of Python depends on rounding and this function is not meant:
  it serves the evaluations below, which are at sizes up to 25.
\<close>

definition small_int_root :: "int \<Rightarrow> error + int" where
  "small_int_root n =
     (if 0 \<le> n \<and> n < 2 ^ 52 then Inr (int (isqrt (nat n)))
      else if - (2 ^ 1023) < n \<and> n < 0 then Inl TypeError
      else Inl OverflowError)"

section \<open>gen\_sudoku\_puzzle\<close>

text \<open>
  A finite float of Python is the rational number it stands for. \<open>fl\<close> rounds a rational
  number to the nearest binary64 number, ties to the even significand: 53 bits above
  \<open>2^-1022\<close>, multiples of \<open>2^-1074\<close> below. Each float operation of the source is the exact
  operation followed by \<open>fl\<close>, and gives infinity when the rounded value reaches \<open>2^1024\<close>.
  Infinities and NaN are no values of the type: a float argument is finite.
\<close>

definition round_even :: "rat \<Rightarrow> int" where
  "round_even q =
     (let f = \<lfloor>q\<rfloor>; d = q - of_int f
      in if d < 1 / 2 then f else if 1 / 2 < d then f + 1 else if even f then f else f + 1)"

text \<open>The exponent \<open>e\<close> with \<open>2^e \<le> q < 2^(e+1)\<close>, for a positive \<open>q\<close>.\<close>

definition ilog2 :: "rat \<Rightarrow> int" where
  "ilog2 q =
     (case quotient_of q of
        (a, b) \<Rightarrow> let d = bitlen a - bitlen b in if 2 powi d \<le> q then d else d - 1)"

definition fl :: "rat \<Rightarrow> rat" where
  "fl q =
     (if q = 0 then 0
      else let e = max (ilog2 \<bar>q\<bar>) (- 1022); u = 2 powi (e - 52)
           in of_int (round_even (q / u)) * u)"

definition binary64 :: "rat \<Rightarrow> bool" where
  "binary64 q = (fl q = q \<and> \<bar>q\<bar> < 2 ^ 1024)"

text \<open>\<open>int(x)\<close> of a finite float cuts the fraction off, towards zero.\<close>

definition py_int :: "rat \<Rightarrow> int" where
  "py_int q = (if 0 \<le> q then \<lfloor>q\<rfloor> else \<lceil>q\<rceil>)"

text \<open>
  The removal cap \<open>nmax_idx\<close>; \<open>-1\<close> stands for no cap. In
  \<open>max_removed_ratio * n0**2\<close> the integer \<open>n0**2\<close> is converted to a float and the product is
  a float product; \<open>int()\<close> of an infinite product raises.
\<close>

definition nmax_idx_init :: "rat option \<Rightarrow> nat \<Rightarrow> error + int" where
  "nmax_idx_init max_removed_ratio n0 =
     (case max_removed_ratio of
        None \<Rightarrow> Inr (- 1)
      | Some r \<Rightarrow>
          let p = fl (r * fl (of_nat (n0 ^ 2)))
          in if 2 ^ 1024 \<le> \<bar>p\<bar> then Inl OverflowError else Inr (max 1 (py_int p)))"

text \<open>The loop \<open>for i in idx\<close>, with its \<open>break\<close>.\<close>

fun carve :: "lister \<Rightarrow> nat \<Rightarrow> nat list \<Rightarrow> grid \<Rightarrow> int \<Rightarrow> error + grid" where
  "carve sl n0 [] sudoku_array nmax_idx = Inr sudoku_array"
| "carve sl n0 (i # idx) sudoku_array nmax_idx =
     (let tmp = upd sudoku_array (mx n0 ! i) (my n0 ! i) 0 in
      case available_digits sl tmp (Some (int (mx n0 ! i), int (my n0 ! i))) of
        Inl e \<Rightarrow> Inl e
      | Inr (a_lst, _, _) \<Rightarrow>
          if length (a_lst ! 0) = 1 then
            (if nmax_idx - 1 = 0 then Inr (upd sudoku_array (mx n0 ! i) (my n0 ! i) 0)
             else carve sl n0 idx (upd sudoku_array (mx n0 ! i) (my n0 ! i) 0) (nmax_idx - 1))
          else carve sl n0 idx sudoku_array nmax_idx)"

definition gen_sudoku_puzzle :: "lister \<Rightarrow> 's rng \<Rightarrow> 's \<Rightarrow> grid \<Rightarrow> rat option \<Rightarrow> error + grid" where
  "gen_sudoku_puzzle sl rng st sudoku_full max_removed_ratio =
     (if \<not> is_ndarray sudoku_full then Inl NotNumpyArray
      else
        let n0 = shape0 sudoku_full in
        if concat sudoku_full = [] then Inl EmptyReduction
        else if Max (set (concat sudoku_full)) > int n0 \<or> Min (set (concat sudoku_full)) < 1
        then Inl FullValueOverflow
        else if list_ex (\<lambda>row. card (set row) \<noteq> n0) sudoku_full then Inl FullInconsistent
        else
          (case nmax_idx_init max_removed_ratio n0 of
             Inl e \<Rightarrow> Inl e
           | Inr nmax_idx \<Rightarrow>
               let idx = fst (py_shuffle rng st [0..<n0 ^ 2])
               in carve sl n0 idx sudoku_full nmax_idx))"

text \<open>
  The two failures the specification calls \<open>InvalidSolution\<close>: the value check and the
  row check of \<open>gen_sudoku_puzzle\<close>.
\<close>

definition invalid_solution :: "error \<Rightarrow> bool" where
  "invalid_solution e = (e = FullValueOverflow \<or> e = FullInconsistent)"

section \<open>gen\_customized\_puzzle\<close>

text \<open>\<open>np.count_nonzero(puzzle == 0)\<close>, also \<open>len(arr[arr == 0])\<close>.\<close>

definition count_zeros :: "grid \<Rightarrow> nat" where
  "count_zeros g = length (filter (\<lambda>v. v = 0) (concat g))"

text \<open>
  \<open>max_removed_ratio = count / array_size ** 2\<close> is the quotient of two integers, rounded
  once; \<open>removed_ratio = difficulty * max_removed_ratio\<close> is a float product.
\<close>

definition removed_ratio :: "rat \<Rightarrow> grid \<Rightarrow> int \<Rightarrow> rat" where
  "removed_ratio difficulty puzzle_max array_size =
     fl (difficulty * fl (of_nat (count_zeros puzzle_max) / of_int (array_size ^ 2)))"

text \<open>
  Both carving calls seed the generator again with the same seed, so both start from the
  state \<open>st\<close>.
\<close>

definition gen_customized_puzzle ::
  "lister \<Rightarrow> (int \<Rightarrow> error + int) \<Rightarrow> 's rng \<Rightarrow> 's \<Rightarrow> int \<Rightarrow> rat
   \<Rightarrow> (error + grid \<times> grid) option" where
  "gen_customized_puzzle sl int_root rng st array_size difficulty =
     (case gen_sudoku_full sl int_root rng st array_size of
        None \<Rightarrow> None
      | Some (Inl e) \<Rightarrow> Some (Inl e)
      | Some (Inr c_solution) \<Rightarrow>
         (case gen_sudoku_puzzle sl rng st c_solution None of
            Inl e \<Rightarrow> Some (Inl e)
          | Inr puzzle_max \<Rightarrow>
             (case gen_sudoku_puzzle sl rng st c_solution
                     (Some (removed_ratio difficulty puzzle_max array_size)) of
                Inl e \<Rightarrow> Some (Inl e)
              | Inr c_puzzle \<Rightarrow> Some (Inr (c_puzzle, c_solution)))))"

section \<open>solve\_sudoku\<close>

text \<open>
  The simultaneous filling of all cells that have one candidate:
  \<open>for idx in indices: sudoku_arr[pos_x[idx], pos_y[idx]] = avail_lst[idx][0]\<close>.
\<close>

definition fill_singles :: "grid \<Rightarrow> int list list \<Rightarrow> nat list \<Rightarrow> nat list \<Rightarrow> grid" where
  "fill_singles sudoku_arr avail pos_x pos_y =
     fold (\<lambda>idx a. upd a (pos_x ! idx) (pos_y ! idx) (avail ! idx ! 0))
          (filter (\<lambda>i. length (avail ! i) = 1) [0..<length avail]) sudoku_arr"

text \<open>
  The results of the recursive calls of the branching step, put together: an exception of
  a call ends the whole run, a \<open>None\<close> is skipped, the lists are concatenated.
\<close>

fun collect :: "(error + grid list option) list \<Rightarrow> error + grid list" where
  "collect [] = Inr []"
| "collect (Inl e # rs) = Inl e"
| "collect (Inr None # rs) = collect rs"
| "collect (Inr (Some tmp_solved) # rs) =
     (case collect rs of Inl e \<Rightarrow> Inl e | Inr sols \<Rightarrow> Inr (tmp_solved @ sols))"

text \<open>
  Every recursive call of the solver is on an array with fewer empty cells: the lemmas
  below are what its termination proof needs.
\<close>

lemma cnt_row_update_le:
  "v \<noteq> (0::int) \<Longrightarrow> length (filter (\<lambda>v. v = 0) (r[y := v])) \<le> length (filter (\<lambda>v. v = 0) r)"
  by (induction r arbitrary: y) (auto split: nat.splits)

lemma cnt_row_update_less:
  "v \<noteq> (0::int) \<Longrightarrow> y < length r \<Longrightarrow> r ! y = 0 \<Longrightarrow>
   length (filter (\<lambda>v. v = 0) (r[y := v])) < length (filter (\<lambda>v. v = 0) r)"
proof (induction r arbitrary: y)
  case Nil then show ?case by simp
next
  case (Cons a r)
  show ?case
  proof (cases y)
    case 0 with Cons.prems show ?thesis by simp
  next
    case (Suc y') with Cons show ?thesis by auto
  qed
qed

lemma sum_list_map_update_le:
  fixes f :: "'a \<Rightarrow> nat"
  shows "f r' \<le> f (g ! x) \<Longrightarrow> sum_list (map f (g[x := r'])) \<le> sum_list (map f g)"
  by (induction g arbitrary: x) (auto split: nat.splits)

lemma sum_list_map_update_less:
  fixes f :: "'a \<Rightarrow> nat"
  shows "x < length g \<Longrightarrow> f r' < f (g ! x) \<Longrightarrow> sum_list (map f (g[x := r'])) < sum_list (map f g)"
  by (induction g arbitrary: x) (auto split: nat.splits)

lemma count_zeros_sum: "count_zeros g = sum_list (map (\<lambda>r. length (filter (\<lambda>v. v = 0) r)) g)"
  by (induction g) (auto simp: count_zeros_def)

lemma count_zeros_upd_le: "v \<noteq> 0 \<Longrightarrow> count_zeros (upd g x y v) \<le> count_zeros g"
  unfolding count_zeros_sum upd_def
  by (rule sum_list_map_update_le) (rule cnt_row_update_le)

lemma count_zeros_upd_less:
  "v \<noteq> 0 \<Longrightarrow> x < length g \<Longrightarrow> y < length (g ! x) \<Longrightarrow> g ! x ! y = 0 \<Longrightarrow>
   count_zeros (upd g x y v) < count_zeros g"
  unfolding count_zeros_sum upd_def
  by (rule sum_list_map_update_less) (auto intro: cnt_row_update_less)

lemma in_zero_positions:
  "(x, y) \<in> set (zero_positions g) \<longleftrightarrow> x < length g \<and> y < length (g ! x) \<and> g ! x ! y = 0"
  by (auto simp: zero_positions_def)


lemma length_filter_nth:
  "length (filter (\<lambda>y. P (r ! y)) [0..<length r]) = length (filter P r)"
proof -
  have "filter P r = filter P (map (\<lambda>i. r ! i) [0..<length r])"
    by (simp add: map_nth)
  also have "\<dots> = map (\<lambda>i. r ! i) (filter (\<lambda>y. P (r ! y)) [0..<length r])"
    by (simp add: filter_map comp_def)
  finally show ?thesis by simp
qed

lemma length_zero_positions: "length (zero_positions g) = count_zeros g"
proof -
  have "length (zero_positions g)
        = sum_list (map (\<lambda>x. length (filter (\<lambda>v. v = 0) (g ! x))) [0..<length g])"
    unfolding zero_positions_def length_concat map_map comp_def length_map
    by (simp add: length_filter_nth[where P="\<lambda>v. v = 0"])
  also have "\<dots> = sum_list (map (\<lambda>r. length (filter (\<lambda>v. v = 0) r)) (map (\<lambda>x. g ! x) [0..<length g]))"
    by (simp add: comp_def)
  also have "\<dots> = count_zeros g"
    by (simp add: map_nth count_zeros_sum)
  finally show ?thesis .
qed

lemma available_digits_None_Inr:
  assumes "available_digits sl g None = Inr (avail, pos_x, pos_y)"
  shows "avail = map (\<lambda>(ix, iy). avail_at sl g (length g) (isqrt (length g)) ix iy) (zero_positions g)"
    and "pos_x = map fst (zero_positions g)"
    and "pos_y = map snd (zero_positions g)"
  using assms
  by (auto simp: available_digits_def Let_def shape0_def split: if_splits)

lemma lister_distinct: "distinct (list_of_difference sl n0 ex)"
  using list_of_difference[of sl] by simp

lemma lister_set: "set (list_of_difference sl n0 ex) = {1..int n0} - set ex"
  using list_of_difference[of sl] by simp

lemma avail_at_pos: "v \<in> set (avail_at sl g n0 n1 ix iy) \<Longrightarrow> 1 \<le> v \<and> v \<le> int n0"
  by (simp add: avail_at_def lister_set)

lemma count_zeros_fold_upd_le:
  "(\<And>i. i \<in> set js \<Longrightarrow> val i \<noteq> 0) \<Longrightarrow>
   count_zeros (fold (\<lambda>idx a. upd a (fx idx) (fy idx) (val idx)) js g) \<le> count_zeros g"
proof (induction js arbitrary: g)
  case Nil then show ?case by simp
next
  case (Cons j js)
  have "count_zeros (fold (\<lambda>idx a. upd a (fx idx) (fy idx) (val idx)) js (upd g (fx j) (fy j) (val j)))
        \<le> count_zeros (upd g (fx j) (fy j) (val j))"
    using Cons.prems by (intro Cons.IH) simp
  also have "\<dots> \<le> count_zeros g"
    using Cons.prems by (intro count_zeros_upd_le) simp
  finally show ?case by simp
qed

lemma avail_nth:
  assumes "available_digits sl g None = Inr (avail, pos_x, pos_y)" and "i < length avail"
  shows "(pos_x ! i, pos_y ! i) \<in> set (zero_positions g)"
    and "avail ! i = avail_at sl g (length g) (isqrt (length g)) (pos_x ! i) (pos_y ! i)"
proof -
  note A = available_digits_None_Inr[OF assms(1)]
  have i: "i < length (zero_positions g)" using assms(2) A(1) by simp
  have "(pos_x ! i, pos_y ! i) = zero_positions g ! i"
    using i by (simp add: A)
  then show "(pos_x ! i, pos_y ! i) \<in> set (zero_positions g)"
    using i by simp
  show "avail ! i = avail_at sl g (length g) (isqrt (length g)) (pos_x ! i) (pos_y ! i)"
    using i by (simp add: A case_prod_beta)
qed

lemma count_zeros_fill_singles:
  assumes A: "available_digits sl g None = Inr (avail, pos_x, pos_y)"
    and pos: "0 < count_zeros g"
    and m: "Min (set (map length avail)) = 1"
  shows "count_zeros (fill_singles g avail pos_x pos_y) < count_zeros g"
proof -
  let ?js = "filter (\<lambda>i. length (avail ! i) = 1) [0..<length avail]"
  have ne: "avail \<noteq> []"
    using available_digits_None_Inr(1)[OF A] pos length_zero_positions[of g] by auto
  then have "Min (set (map length avail)) \<in> set (map length avail)"
    by (intro Min_in) auto
  then have "1 \<in> set (map length avail)" using m by simp
  then obtain i where i: "i < length avail" "length (avail ! i) = 1"
    by (auto simp: in_set_conv_nth)
  then have "i \<in> set ?js" by simp
  then have "?js \<noteq> []" by (metis empty_iff empty_set)
  then obtain j js where js: "?js = j # js" by (cases ?js) blast+
  have val: "\<And>k. k \<in> set ?js \<Longrightarrow> avail ! k ! 0 \<noteq> 0"
  proof -
    fix k assume "k \<in> set ?js"
    then have k: "k < length avail" "length (avail ! k) = 1" by auto
    then have "avail ! k ! 0 \<in> set (avail ! k)" by simp
    then show "avail ! k ! 0 \<noteq> 0"
      using avail_nth(2)[OF A k(1)] avail_at_pos by fastforce
  qed
  have j: "j \<in> set ?js" using js by simp
  then have jl: "j < length avail" by auto
  have zp: "(pos_x ! j, pos_y ! j) \<in> set (zero_positions g)" by (rule avail_nth(1)[OF A jl])
  have "count_zeros (fill_singles g avail pos_x pos_y)
        = count_zeros (fold (\<lambda>idx a. upd a (pos_x ! idx) (pos_y ! idx) (avail ! idx ! 0)) js
                         (upd g (pos_x ! j) (pos_y ! j) (avail ! j ! 0)))"
    unfolding fill_singles_def js by simp
  also have "\<dots> \<le> count_zeros (upd g (pos_x ! j) (pos_y ! j) (avail ! j ! 0))"
  proof (rule count_zeros_fold_upd_le)
    fix k assume "k \<in> set js"
    then have "k \<in> set ?js" unfolding js by simp
    then show "avail ! k ! 0 \<noteq> 0" by (rule val)
  qed
  also have "\<dots> < count_zeros g"
    using zp val[OF j] by (intro count_zeros_upd_less) (auto simp: in_zero_positions)
  finally show ?thesis .
qed

lemma count_zeros_branch:
  assumes A: "available_digits sl g None = Inr (avail, pos_x, pos_y)"
    and i: "i < length avail" and v: "v \<in> set (avail ! i)"
  shows "count_zeros (upd g (pos_x ! i) (pos_y ! i) v) < count_zeros g"
proof -
  have "v \<noteq> 0" using v avail_nth(2)[OF A i] avail_at_pos by fastforce
  then show ?thesis
    using avail_nth(1)[OF A i] by (intro count_zeros_upd_less) (auto simp: in_zero_positions)
qed

text \<open>
  The body of \<open>solve_sudoku\<close>. The \<open>while\<close> loop either returns \<open>None\<close> at a dead end,
  or fills the cells with one candidate and goes round again (the recursive call on the
  filled array), or branches and leaves the loop with the concatenated results, or ends with
  no empty cell left and returns the array alone. The second result of the source, the
  record of the solving steps, takes no part in any of this and is left out: the test
  \<open>len(solving_record) == 0\<close> holds exactly when the loop ended without dead end or branch.
\<close>

function solve_sudoku :: "lister \<Rightarrow> grid \<Rightarrow> error + grid list option" where
  "solve_sudoku sl sudoku_arr =
     (if count_zeros sudoku_arr > 0 then
        (case available_digits sl sudoku_arr None of
           Inl e \<Rightarrow> Inl e
         | Inr (avail, pos_x, pos_y) \<Rightarrow>
            let n_avail = map length avail in
            if Min (set n_avail) = 0 then Inr None
            else if Min (set n_avail) = 1 then
              solve_sudoku sl (fill_singles sudoku_arr avail pos_x pos_y)
            else
              (let indices = filter (\<lambda>i. n_avail ! i = Min (set n_avail)) [0..<length n_avail]
               in case collect (concat (map (\<lambda>idx. map (\<lambda>val.
                         solve_sudoku sl (upd sudoku_arr (pos_x ! idx) (pos_y ! idx) val))
                       (avail ! idx)) indices)) of
                    Inl e \<Rightarrow> Inl e
                  | Inr sols \<Rightarrow> Inr (Some sols)))
      else Inr (Some [sudoku_arr]))"
  by pat_completeness auto
termination
proof (relation "measure (\<lambda>(sl, g). count_zeros g)", goal_cases)
  case 1 show ?case by simp
next
  case (2 sl sudoku_arr b avail y pos_x pos_y n_avail)
  then show ?case using count_zeros_fill_singles[of sl sudoku_arr avail pos_x pos_y] by auto
next
  case (3 sl sudoku_arr b avail y pos_x pos_y n_avail indices idx val)
  then show ?case using count_zeros_branch[of sl sudoku_arr avail pos_x pos_y idx val] by auto
qed

declare solve_sudoku.simps [simp del]



section \<open>What the specification calls a grid\<close>

text \<open>
  The columns and the inner boxes of a square array, the completeness of a grid (every row,
  column and box holds each of \<open>1..N\<close> once), the validity of a partial grid (no row, column
  or box holds a digit twice) and the agreement of a grid with the filled cells of another.
\<close>

definition cols :: "grid \<Rightarrow> int list list" where
  "cols g = map (\<lambda>y. map (\<lambda>r. r ! y) g) [0..<length g]"

definition boxes :: "grid \<Rightarrow> int list list" where
  "boxes g =
     (let n1 = isqrt (length g)
      in concat (map (\<lambda>bx. map (\<lambda>by.
           concat (map (\<lambda>r. take n1 (drop (by * n1) r)) (take n1 (drop (bx * n1) g))))
           [0..<n1]) [0..<n1]))"

definition units :: "grid \<Rightarrow> int list list" where
  "units g = g @ cols g @ boxes g"

definition complete_grid :: "nat \<Rightarrow> grid \<Rightarrow> bool" where
  "complete_grid n0 g =
     (length g = n0 \<and> list_all (\<lambda>r. length r = n0) g \<and> n0 = isqrt n0 * isqrt n0
      \<and> list_all (\<lambda>u. sort u = [1..int n0]) (units g))"

definition valid_partial :: "nat \<Rightarrow> grid \<Rightarrow> bool" where
  "valid_partial n0 g =
     (length g = n0 \<and> list_all (\<lambda>r. length r = n0) g \<and> n0 = isqrt n0 * isqrt n0
      \<and> list_all (\<lambda>r. list_all (\<lambda>v. 0 \<le> v \<and> v \<le> int n0) r) g
      \<and> list_all (\<lambda>u. distinct (filter (\<lambda>v. v \<noteq> 0) u)) (units g))"

definition agrees :: "grid \<Rightarrow> grid \<Rightarrow> bool" where
  "agrees p s = list_all2 (list_all2 (\<lambda>a b. a = 0 \<or> a = b)) p s"


text \<open>
  A dead end of the solver's loop: some empty cell has no candidate, now or after one or
  more rounds of filling the cells that have one candidate.
\<close>

inductive dead_end :: "lister \<Rightarrow> grid \<Rightarrow> bool" where
  here: "0 < count_zeros g \<Longrightarrow> available_digits sl g None = Inr (avail, pos_x, pos_y) \<Longrightarrow>
         [] \<in> set avail \<Longrightarrow> dead_end sl g"
| later: "0 < count_zeros g \<Longrightarrow> available_digits sl g None = Inr (avail, pos_x, pos_y) \<Longrightarrow>
          [] \<notin> set avail \<Longrightarrow> list_ex (\<lambda>a. length a = 1) avail \<Longrightarrow>
          dead_end sl (fill_singles g avail pos_x pos_y) \<Longrightarrow> dead_end sl g"


section \<open>The integer square root\<close>

lemma isqrt_below_square: "k \<le> b \<Longrightarrow> isqrt_below (k * k) b = k"
proof (induction b)
  case 0 then show ?case by simp
next
  case (Suc b)
  show ?case
  proof (cases "Suc b * Suc b \<le> k * k")
    case True
    have "Suc b \<le> k"
    proof (rule ccontr)
      assume "\<not> Suc b \<le> k"
      then have "k \<le> b" by simp
      then have "k * k \<le> b * b" by (rule mult_le_mono) (rule \<open>k \<le> b\<close>)
      then have "k * k < Suc b * Suc b" by simp
      with True show False by simp
    qed
    with Suc.prems have "k = Suc b" by simp
    with True show ?thesis by simp
  next
    case False
    then have "k \<noteq> Suc b" by auto
    with Suc.prems have "k \<le> b" by simp
    with False Suc.IH show ?thesis by simp
  qed
qed

lemma isqrt_square: "isqrt (k * k) = k"
proof -
  have "k \<le> k * k" by (cases k) auto
  then show ?thesis unfolding isqrt_def by (rule isqrt_below_square)
qed

lemma square_iff_isqrt: "(\<exists>k. n = k * k) \<longleftrightarrow> n = isqrt n * isqrt n"
  using isqrt_square by auto

lemma int_square_iff_isqrt:
  assumes "0 \<le> N"
  shows "(\<exists>k::int. N = k * k) \<longleftrightarrow> N = int (isqrt (nat N) * isqrt (nat N))"
proof
  assume "\<exists>k::int. N = k * k"
  then obtain k :: int where k: "N = k * k" by blast
  have "nat N = nat \<bar>k\<bar> * nat \<bar>k\<bar>"
    unfolding k by (simp add: nat_mult_distrib[symmetric] abs_mult_self_eq flip: abs_mult)
  then have "nat N = isqrt (nat N) * isqrt (nat N)"
    using square_iff_isqrt by blast
  then show "N = int (isqrt (nat N) * isqrt (nat N))"
    using assms by (metis nat_0_le)
next
  assume "N = int (isqrt (nat N) * isqrt (nat N))"
  then have "N = int (isqrt (nat N)) * int (isqrt (nat N))" by simp
  then show "\<exists>k::int. N = k * k" by blast
qed


section \<open>Dead ends of the solver\<close>

lemma Min_lengths_0: "[] \<in> set avail \<Longrightarrow> Min (set (map length avail)) = 0"
proof -
  assume "[] \<in> set avail"
  then have "0 \<in> set (map length avail)" by force
  then have "Min (set (map length avail)) \<le> 0" by (intro Min_le) auto
  then show ?thesis by simp
qed

lemma Min_lengths_1:
  assumes "[] \<notin> set avail" and "list_ex (\<lambda>a. length a = 1) avail"
  shows "Min (set (map length avail)) = 1"
proof (rule Min_eqI)
  show "finite (set (map length avail))" by simp
  show "1 \<in> set (map length avail)" using assms(2) by (force simp: list_ex_iff)
  fix y assume "y \<in> set (map length avail)"
  then obtain a where "a \<in> set avail" "y = length a" by auto
  with assms(1) show "1 \<le> y" by (cases a) auto
qed

lemma Min_lengths_in:
  "avail \<noteq> [] \<Longrightarrow> \<exists>a \<in> set avail. length a = Min (set (map length avail))"
proof -
  assume "avail \<noteq> []"
  then have "Min (set (map length avail)) \<in> set (map length avail)" by (intro Min_in) auto
  then show ?thesis by auto
qed

lemma avail_nonempty:
  "0 < count_zeros g \<Longrightarrow> available_digits sl g None = Inr (avail, pos_x, pos_y) \<Longrightarrow> avail \<noteq> []"
  using available_digits_None_Inr(1)[of sl g avail pos_x pos_y] length_zero_positions[of g] by auto

lemma solve_sudoku_unfold:
  assumes "0 < count_zeros g" and "available_digits sl g None = Inr (avail, pos_x, pos_y)"
  shows "solve_sudoku sl g =
     (if Min (set (map length avail)) = 0 then Inr None
      else if Min (set (map length avail)) = 1 then
        solve_sudoku sl (fill_singles g avail pos_x pos_y)
      else
        (case collect (concat (map (\<lambda>idx. map (\<lambda>val.
                 solve_sudoku sl (upd g (pos_x ! idx) (pos_y ! idx) val)) (avail ! idx))
               (filter (\<lambda>i. map length avail ! i = Min (set (map length avail)))
                  [0..<length (map length avail)]))) of
           Inl e \<Rightarrow> Inl e
         | Inr sols \<Rightarrow> Inr (Some sols)))"
  by (subst solve_sudoku.simps) (simp add: assms Let_def del: set_map)

lemma solve_sudoku_full: "count_zeros g = 0 \<Longrightarrow> solve_sudoku sl g = Inr (Some [g])"
  by (subst solve_sudoku.simps) simp

lemma solve_sudoku_error:
  "0 < count_zeros g \<Longrightarrow> available_digits sl g None = Inl e \<Longrightarrow> solve_sudoku sl g = Inl e"
  by (subst solve_sudoku.simps) simp

lemma dead_end_None: "dead_end sl g \<Longrightarrow> solve_sudoku sl g = Inr None"
proof (induction rule: dead_end.induct)
  case (here g sl avail pos_x pos_y)
  have "Min (set (map length avail)) = 0" by (rule Min_lengths_0[OF here(3)])
  then show ?case
    by (simp only: solve_sudoku_unfold[OF here(1,2)]) simp
next
  case (later g sl avail pos_x pos_y)
  have "Min (set (map length avail)) = 1" by (rule Min_lengths_1[OF later(3,4)])
  then show ?case
    using later.IH by (simp only: solve_sudoku_unfold[OF later(1,2)]) simp
qed

lemma None_dead_end: "solve_sudoku sl g = Inr None \<Longrightarrow> dead_end sl g"
proof (induction sl g rule: solve_sudoku.induct)
  case (1 sl g)
  have pos: "0 < count_zeros g"
  proof (rule ccontr)
    assume "\<not> 0 < count_zeros g"
    then have "solve_sudoku sl g = Inr (Some [g])" by (intro solve_sudoku_full) simp
    with "1.prems" show False by simp
  qed
  obtain avail pos_x pos_y where A: "available_digits sl g None = Inr (avail, pos_x, pos_y)"
  proof (cases "available_digits sl g None")
    case (Inl e)
    then have "solve_sudoku sl g = Inl e" by (rule solve_sudoku_error[OF pos])
    with "1.prems" show ?thesis by simp
  next
    case (Inr r)
    then show ?thesis using that by (cases r) auto
  qed
  note U = solve_sudoku_unfold[OF pos A]
  have ne: "avail \<noteq> []" by (rule avail_nonempty[OF pos A])
  let ?m = "Min (set (map length avail))"
  consider "?m = 0" | "?m = 1" | "?m \<noteq> 0" "?m \<noteq> 1" by blast
  then show ?case
  proof cases
    case 1
    then have "[] \<in> set avail" using Min_lengths_in[OF ne] by auto
    then show ?thesis by (rule dead_end.here[OF pos A])
  next
    case 2
    have r: "solve_sudoku sl (fill_singles g avail pos_x pos_y) = Inr None"
      using "1.prems" 2 unfolding U by simp
    have d: "dead_end sl (fill_singles g avail pos_x pos_y)"
      using "1.IH"(1)[OF pos A refl refl refl _ _ r] 2 by simp
    have n0: "[] \<notin> set avail"
    proof
      assume "[] \<in> set avail"
      then have "?m = 0" by (rule Min_lengths_0)
      with 2 show False by simp
    qed
    have ex: "list_ex (\<lambda>a. length a = 1) avail"
      using Min_lengths_in[OF ne] 2 by (auto simp: list_ex_iff)
    show ?thesis by (rule dead_end.later[OF pos A n0 ex d])
  next
    case 3
    then have False
      using "1.prems" unfolding U by (simp split: sum.splits del: set_map)
    then show ?thesis ..
  qed
qed

section \<open>Square arrays and the cells that constrain a cell\<close>

text \<open>
  The facts about arrays that the proofs below share: an update keeps the shape, the list of existing digits of a position holds exactly the digits of its row, column and box, and the validation of available_digits sl passes on a square array of bounded digits.
\<close>

definition sq :: "grid \<Rightarrow> nat \<Rightarrow> bool" where
  "sq g n0 \<longleftrightarrow> length g = n0 \<and> (\<forall>r \<in> set g. length r = n0)"

definition peer :: "nat \<Rightarrow> nat \<Rightarrow> nat \<Rightarrow> nat \<Rightarrow> nat \<Rightarrow> bool" where
  "peer n1 x y r c \<longleftrightarrow> r = x \<or> c = y \<or> (r div n1 = x div n1 \<and> c div n1 = y div n1)"

lemma peer_sym: "peer n1 x y r c \<longleftrightarrow> peer n1 r c x y"
  by (auto simp: peer_def)

lemma peer_refl: "peer n1 x y x y"
  by (simp add: peer_def)

lemma sq_row: "sq g n0 \<Longrightarrow> x < n0 \<Longrightarrow> length (g ! x) = n0"
  by (simp add: sq_def)

lemma sq_length: "sq g n0 \<Longrightarrow> length g = n0"
  by (simp add: sq_def)

lemma sq_is_ndarray: "sq g n0 \<Longrightarrow> is_ndarray g"
  by (cases g) (auto simp: sq_def is_ndarray_def shape1_def list_all_iff)

lemma sq_shape1: "sq g n0 \<Longrightarrow> shape1 g = n0"
  by (cases g) (auto simp: sq_def shape1_def)

lemma sq_upd:
  assumes "sq g n0"
  shows "sq (upd g x y v) n0"
proof (cases "x < length g")
  case True
  have "set (g[x := (g ! x)[y := v]]) \<subseteq> insert ((g ! x)[y := v]) (set g)"
    by (rule set_update_subset_insert)
  moreover have "length ((g ! x)[y := v]) = n0"
    using assms True by (simp add: sq_def)
  ultimately show ?thesis using assms unfolding sq_def upd_def by auto
next
  case False
  then show ?thesis using assms by (simp add: upd_def list_update_beyond)
qed

lemma nth_upd:
  "sq g n0 \<Longrightarrow> x < n0 \<Longrightarrow> y < n0 \<Longrightarrow> r < n0 \<Longrightarrow> c < n0 \<Longrightarrow>
   upd g x y v ! r ! c = (if r = x \<and> c = y then v else g ! r ! c)"
  by (auto simp: upd_def sq_def nth_list_update)


lemma div_eq_iff_range:
  fixes n1 :: nat
  assumes "0 < n1"
  shows "r div n1 = a \<longleftrightarrow> a * n1 \<le> r \<and> r < a * n1 + n1"
proof
  assume a: "r div n1 = a"
  have "r = a * n1 + r mod n1" using a by (metis div_mult_mod_eq)
  moreover have "r mod n1 < n1" using assms by simp
  ultimately show "a * n1 \<le> r \<and> r < a * n1 + n1" by linarith
next
  assume "a * n1 \<le> r \<and> r < a * n1 + n1"
  then show "r div n1 = a"
    using assms by (intro div_nat_eqI) (simp_all add: mult.commute)
qed




lemma length_avail_at: "length (avail_at sl g n0 n1 x y) \<le> n0"
proof -
  have "card (set (avail_at sl g n0 n1 x y)) \<le> card {1..int n0}"
    unfolding avail_at_def lister_set by (intro card_mono) auto
  then show ?thesis
    using distinct_card[of "avail_at sl g n0 n1 x y"]
    by (simp add: avail_at_def lister_distinct)
qed

lemma distinct_avail_at: "distinct (avail_at sl g n0 n1 x y)"
  unfolding avail_at_def by (rule lister_distinct)

definition bounded :: "grid \<Rightarrow> nat \<Rightarrow> bool" where
  "bounded g n0 \<longleftrightarrow> (\<forall>r \<in> set g. \<forall>v \<in> set r. v \<le> int n0)"

lemma bounded_upd: "bounded g n0 \<Longrightarrow> v \<le> int n0 \<Longrightarrow> bounded (upd g x y v) n0"
proof -
  assume b: "bounded g n0" and v: "v \<le> int n0"
  have 1: "set (g[x := (g ! x)[y := v]]) \<subseteq> insert ((g ! x)[y := v]) (set g)"
    by (rule set_update_subset_insert)
  have 2: "set ((g ! x)[y := v]) \<subseteq> insert v (set (g ! x))"
    by (rule set_update_subset_insert)
  show ?thesis
  proof (cases "x < length g")
    case True
    then have "g ! x \<in> set g" by simp
    then show ?thesis using b v 1 2 unfolding bounded_def upd_def by blast
  next
    case False
    then show ?thesis using b by (simp add: upd_def list_update_beyond)
  qed
qed

lemma validation_ok:
  assumes s: "sq g n0" and n: "n0 = n1 * n1" and p: "0 < n0" and b: "bounded g n0"
  shows "is_ndarray g" and "shape0 g = n0" and "shape1 g = n0" and "isqrt (shape0 g) = n1"
    and "concat g \<noteq> []" and "\<not> Max (set (concat g)) > int n0"
proof -
  show "is_ndarray g" by (rule sq_is_ndarray[OF s])
  show 0: "shape0 g = n0" using s by (simp add: shape0_def sq_def)
  show "shape1 g = n0" by (rule sq_shape1[OF s])
  show "isqrt (shape0 g) = n1" unfolding 0 n by (rule isqrt_square)
  have g0: "g ! 0 \<in> set g" using s p by (simp add: sq_def)
  then have "length (g ! 0) = n0" using s by (simp add: sq_def)
  then have "g ! 0 \<noteq> []" using p by auto
  with g0 show ne: "concat g \<noteq> []" by auto
  have "Max (set (concat g)) \<in> set (concat g)" using ne by (intro Max_in) auto
  then show "\<not> Max (set (concat g)) > int n0"
    using b unfolding bounded_def by fastforce
qed

lemma available_digits_Some:
  assumes "sq g n0" and "n0 = n1 * n1" and "0 < n0" and "bounded g n0"
    and "x < n0" and "y < n0"
  shows "available_digits sl g (Some (int x, int y)) = Inr ([avail_at sl g n0 n1 x y], [x], [y])"
proof -
  note V = validation_ok[OF assms(1-4)]
  have "shape0 g = isqrt (shape0 g) * isqrt (shape0 g)"
    unfolding V(4) using V(2) assms(2) by simp
  moreover have "int x < int n0" "int y < int n0" using assms(5,6) by simp_all
  moreover have "isqrt n0 = n1" using V(4) V(2) by simp
  ultimately show ?thesis
    unfolding available_digits_def Let_def using V(1,2,3,5,6) by simp
qed

lemma available_digits_None:
  assumes "sq g n0" and "n0 = n1 * n1" and "0 < n0" and "bounded g n0"
  shows "available_digits sl g None =
         Inr (map (\<lambda>(ix, iy). avail_at sl g n0 n1 ix iy) (zero_positions g),
              map fst (zero_positions g), map snd (zero_positions g))"
proof -
  note V = validation_ok[OF assms(1-4)]
  have "shape0 g = isqrt (shape0 g) * isqrt (shape0 g)"
    unfolding V(4) using V(2) assms(2) by simp
  moreover have "isqrt n0 = n1" using V(4) V(2) by simp
  ultimately show ?thesis
    unfolding available_digits_def Let_def using V(1,2,3,5,6) by simp
qed


section \<open>Complete grids, cell by cell\<close>

text \<open>
  A square array is a complete grid exactly when every cell holds a digit of 1..N that no other cell of its row, column or box holds.
\<close>

definition latin :: "grid \<Rightarrow> nat \<Rightarrow> nat \<Rightarrow> bool" where
  "latin g n0 n1 \<longleftrightarrow>
     (\<forall>r < n0. \<forall>c < n0. 1 \<le> g ! r ! c \<and> g ! r ! c \<le> int n0 \<and>
        (\<forall>r' < n0. \<forall>c' < n0. peer n1 r c r' c' \<and> (r', c') \<noteq> (r, c) \<longrightarrow> g ! r' ! c' \<noteq> g ! r ! c))"

lemma sort_upto_iff: "sort u = [1..int n] \<longleftrightarrow> distinct u \<and> set u = {1..int n}"
proof
  assume a: "sort u = [1..int n]"
  have m: "mset u = mset [1..int n]" using a by (metis mset_sort)
  have "distinct u" using m by (metis distinct_upto mset_eq_imp_distinct_iff)
  moreover have "set u = {1..int n}" using m by (metis mset_eq_setD set_upto)
  ultimately show "distinct u \<and> set u = {1..int n}" ..
next
  assume a: "distinct u \<and> set u = {1..int n}"
  then have "mset [1..int n] = mset u"
    by (simp add: set_eq_iff_mset_eq_distinct[symmetric])
  then show "sort u = [1..int n]"
    by (intro properties_for_sort) simp_all
qed

lemma unit_perm_iff:
  assumes d: "distinct ps" and l: "length ps = n"
  shows "sort (map f ps) = [1..int n] \<longleftrightarrow> inj_on f (set ps) \<and> f ` set ps \<subseteq> {1..int n}"
proof
  assume "sort (map f ps) = [1..int n]"
  then show "inj_on f (set ps) \<and> f ` set ps \<subseteq> {1..int n}"
    unfolding sort_upto_iff by (simp add: distinct_map)
next
  assume a: "inj_on f (set ps) \<and> f ` set ps \<subseteq> {1..int n}"
  have "card (f ` set ps) = card (set ps)" using a by (simp add: card_image)
  also have "\<dots> = n" using d l by (simp add: distinct_card)
  finally have "card (f ` set ps) = card {1..int n}" by simp
  then have "f ` set ps = {1..int n}"
    using a by (intro card_subset_eq) simp_all
  then show "sort (map f ps) = [1..int n]"
    unfolding sort_upto_iff using a d by (simp add: distinct_map)
qed

definition cellv :: "grid \<Rightarrow> nat \<times> nat \<Rightarrow> int" where
  "cellv g p = g ! fst p ! snd p"

lemma row_as_cells:
  assumes "sq g n0" and "r < n0"
  shows "g ! r = map (cellv g) (map (Pair r) [0..<n0])"
proof -
  have "g ! r = map (\<lambda>c. g ! r ! c) [0..<length (g ! r)]" by (simp add: map_nth)
  then show ?thesis using sq_row[OF assms] by (simp add: cellv_def comp_def)
qed

lemma col_as_cells:
  assumes "sq g n0"
  shows "map (\<lambda>r. r ! y) g = map (cellv g) (map (\<lambda>r. (r, y)) [0..<n0])"
proof -
  have "map (\<lambda>r. r ! y) g = map (\<lambda>r. r ! y) (map (\<lambda>i. g ! i) [0..<length g])"
    by (simp add: map_nth)
  then show ?thesis using sq_length[OF assms] by (simp add: cellv_def comp_def)
qed

lemma take_drop_nth:
  "k + n \<le> length xs \<Longrightarrow> take n (drop k xs) = map (\<lambda>i. xs ! i) [k..<k + n]"
  by (rule nth_equalityI) (auto simp: add.commute)

lemma box_as_cells:
  assumes s: "sq g n0" and n: "n0 = n1 * n1" and bx: "bx < n1" and bc: "bc < n1"
  shows "concat (map (\<lambda>r. take n1 (drop (bc * n1) r)) (take n1 (drop (bx * n1) g)))
         = map (cellv g) (List.product [bx * n1..<bx * n1 + n1] [bc * n1..<bc * n1 + n1])"
proof -
  have bxn: "bx * n1 + n1 \<le> n0"
  proof -
    have "Suc bx * n1 \<le> n1 * n1" using bx by (metis Suc_leI mult_le_mono1)
    then show ?thesis using n by simp
  qed
  have byn: "bc * n1 + n1 \<le> n0"
  proof -
    have "Suc bc * n1 \<le> n1 * n1" using bc by (metis Suc_leI mult_le_mono1)
    then show ?thesis using n by simp
  qed
  have rows: "take n1 (drop (bx * n1) g) = map (\<lambda>i. g ! i) [bx * n1..<bx * n1 + n1]"
    using bxn sq_length[OF s] by (intro take_drop_nth) simp
  have "map (\<lambda>r. take n1 (drop (bc * n1) r)) (take n1 (drop (bx * n1) g))
        = map (\<lambda>i. map (\<lambda>c. g ! i ! c) [bc * n1..<bc * n1 + n1]) [bx * n1..<bx * n1 + n1]"
    unfolding rows map_map comp_def
  proof (rule map_cong[OF refl])
    fix i assume "i \<in> set [bx * n1..<bx * n1 + n1]"
    then have "i < n0" using bxn by simp
    then have "bc * n1 + n1 \<le> length (g ! i)" using sq_row[OF s] byn by simp
    then show "take n1 (drop (bc * n1) (g ! i)) = map (\<lambda>c. g ! i ! c) [bc * n1..<bc * n1 + n1]"
      by (rule take_drop_nth)
  qed
  then show ?thesis
    by (simp add: List.product_concat_map map_concat comp_def cellv_def)
qed

lemma list_all_cols:
  assumes "sq g n0"
  shows "list_all P (cols g) \<longleftrightarrow> (\<forall>y < n0. P (map (cellv g) (map (\<lambda>r. (r, y)) [0..<n0])))"
  unfolding cols_def list_all_iff using col_as_cells[OF assms] sq_length[OF assms] by auto

lemma list_all_rows:
  assumes "sq g n0"
  shows "list_all P g \<longleftrightarrow> (\<forall>r < n0. P (map (cellv g) (map (Pair r) [0..<n0])))"
proof -
  have "list_all P g \<longleftrightarrow> (\<forall>r < n0. P (g ! r))"
    using sq_length[OF assms] by (auto simp: list_all_iff all_set_conv_all_nth)
  then show ?thesis using row_as_cells[OF assms] by auto
qed

lemma list_all_boxes:
  assumes s: "sq g n0" and n: "n0 = n1 * n1"
  shows "list_all P (boxes g) \<longleftrightarrow>
         (\<forall>bx < n1. \<forall>bc < n1. P (map (cellv g)
             (List.product [bx * n1..<bx * n1 + n1] [bc * n1..<bc * n1 + n1])))"
proof -
  have i: "isqrt (length g) = n1" using sq_length[OF s] n isqrt_square by simp
  show ?thesis
    unfolding boxes_def Let_def i list_all_iff
    using box_as_cells[OF s n] by (auto simp del: set_concat simp: set_concat)
qed


lemma set_box_cells:
  assumes "0 < n1"
  shows "set (List.product [br * n1..<br * n1 + n1] [bc * n1..<bc * n1 + n1])
         = {(r, c). r div n1 = br \<and> c div n1 = bc}"
  using div_eq_iff_range[OF assms] by auto

lemma complete_grid_units:
  assumes s: "sq g n0" and n: "n0 = n1 * n1"
  shows "complete_grid n0 g \<longleftrightarrow>
    (\<forall>r < n0. inj_on (cellv g) (set (map (Pair r) [0..<n0]))
              \<and> cellv g ` set (map (Pair r) [0..<n0]) \<subseteq> {1..int n0})
    \<and> (\<forall>y < n0. inj_on (cellv g) (set (map (\<lambda>r. (r, y)) [0..<n0]))
              \<and> cellv g ` set (map (\<lambda>r. (r, y)) [0..<n0]) \<subseteq> {1..int n0})
    \<and> (\<forall>br < n1. \<forall>bc < n1.
          inj_on (cellv g) (set (List.product [br * n1..<br * n1 + n1] [bc * n1..<bc * n1 + n1]))
          \<and> cellv g ` set (List.product [br * n1..<br * n1 + n1] [bc * n1..<bc * n1 + n1])
              \<subseteq> {1..int n0})"
proof -
  have i: "n0 = isqrt n0 * isqrt n0" using n isqrt_square by simp
  have shape: "length g = n0" "list_all (\<lambda>r. length r = n0) g"
    using s by (simp_all add: sq_def list_all_iff)
  have rowp: "\<And>r. sort (map (cellv g) (map (Pair r) [0..<n0])) = [1..int n0] \<longleftrightarrow>
      inj_on (cellv g) (set (map (Pair r) [0..<n0]))
      \<and> cellv g ` set (map (Pair r) [0..<n0]) \<subseteq> {1..int n0}"
    by (rule unit_perm_iff) (simp_all add: distinct_map inj_on_def)
  have colp: "\<And>y. sort (map (cellv g) (map (\<lambda>r. (r, y)) [0..<n0])) = [1..int n0] \<longleftrightarrow>
      inj_on (cellv g) (set (map (\<lambda>r. (r, y)) [0..<n0]))
      \<and> cellv g ` set (map (\<lambda>r. (r, y)) [0..<n0]) \<subseteq> {1..int n0}"
    by (rule unit_perm_iff) (simp_all add: distinct_map inj_on_def)
  have boxp: "\<And>br bc. sort (map (cellv g)
        (List.product [br * n1..<br * n1 + n1] [bc * n1..<bc * n1 + n1])) = [1..int n0] \<longleftrightarrow>
      inj_on (cellv g) (set (List.product [br * n1..<br * n1 + n1] [bc * n1..<bc * n1 + n1]))
      \<and> cellv g ` set (List.product [br * n1..<br * n1 + n1] [bc * n1..<bc * n1 + n1])
          \<subseteq> {1..int n0}"
    by (rule unit_perm_iff) (simp_all add: distinct_product n)
  have "complete_grid n0 g \<longleftrightarrow>
        list_all (\<lambda>u. sort u = [1..int n0]) g
        \<and> list_all (\<lambda>u. sort u = [1..int n0]) (cols g)
        \<and> list_all (\<lambda>u. sort u = [1..int n0]) (boxes g)"
    unfolding complete_grid_def units_def using i shape by simp
  then show ?thesis
    unfolding list_all_rows[OF s] list_all_cols[OF s] list_all_boxes[OF s n] rowp colp boxp .
qed

lemma complete_grid_latin:
  assumes s: "sq g n0" and n: "n0 = n1 * n1" and c: "complete_grid n0 g"
  shows "latin g n0 n1"
  unfolding latin_def
proof (intro allI impI)
  fix r c assume r: "r < n0" and c': "c < n0"
  note U = c[unfolded complete_grid_units[OF s n]]
  have n1: "0 < n1" using r n by (cases n1) auto
  note UR = conjunct1[OF U] and UC = conjunct1[OF conjunct2[OF U]]
    and UB = conjunct2[OF conjunct2[OF U]]
  have rowr: "inj_on (cellv g) (set (map (Pair r) [0..<n0]))"
    "cellv g ` set (map (Pair r) [0..<n0]) \<subseteq> {1..int n0}"
    using UR[rule_format, OF r] by simp_all
  have colc: "inj_on (cellv g) (set (map (\<lambda>r. (r, c)) [0..<n0]))"
    using UC[rule_format, OF c'] by simp
  have bb: "r div n1 < n1" "c div n1 < n1"
    using r c' n by (simp_all add: less_mult_imp_div_less)
  have box: "inj_on (cellv g) {(r', c'). r' div n1 = r div n1 \<and> c' div n1 = c div n1}"
    using UB[rule_format, OF bb] unfolding set_box_cells[OF n1] by simp
  have "(r, c) \<in> set (map (Pair r) [0..<n0])" using c' by simp
  then have "cellv g (r, c) \<in> {1..int n0}" using rowr(2) by blast
  then have range: "1 \<le> g ! r ! c \<and> g ! r ! c \<le> int n0" by (simp add: cellv_def)
  have "\<forall>r'<n0. \<forall>c'<n0. peer n1 r c r' c' \<and> (r', c') \<noteq> (r, c) \<longrightarrow> g ! r' ! c' \<noteq> g ! r ! c"
  proof (intro allI impI)
    fix r' c'' assume r': "r' < n0" and c'': "c'' < n0"
      and p: "peer n1 r c r' c'' \<and> (r', c'') \<noteq> (r, c)"
    show "g ! r' ! c'' \<noteq> g ! r ! c"
    proof
      assume e: "g ! r' ! c'' = g ! r ! c"
      then have ev: "cellv g (r', c'') = cellv g (r, c)" by (simp add: cellv_def)
      from p consider "r' = r" | "c'' = c" | "r' div n1 = r div n1" "c'' div n1 = c div n1"
        unfolding peer_def by blast
      then have "(r', c'') = (r, c)"
      proof cases
        case 1
        then show ?thesis using inj_onD[OF rowr(1) ev] c' c'' by auto
      next
        case 2
        then show ?thesis using inj_onD[OF colc ev] r r' by auto
      next
        case 3
        then show ?thesis using inj_onD[OF box ev] by auto
      qed
      with p show False by simp
    qed
  qed
  with range show "1 \<le> g ! r ! c \<and> g ! r ! c \<le> int n0 \<and>
     (\<forall>r'<n0. \<forall>c'<n0. peer n1 r c r' c' \<and> (r', c') \<noteq> (r, c) \<longrightarrow> g ! r' ! c' \<noteq> g ! r ! c)"
    by blast
qed

lemma latinD:
  assumes "latin g n0 n1" and "r < n0" and "c < n0" and "r' < n0" and "c' < n0"
    and "peer n1 r c r' c'" and "g ! r' ! c' = g ! r ! c"
  shows "r' = r \<and> c' = c"
proof (rule ccontr)
  assume "\<not> (r' = r \<and> c' = c)"
  then have "(r', c') \<noteq> (r, c)" by simp
  with assms(1)[unfolded latin_def] assms(2-6) have "g ! r' ! c' \<noteq> g ! r ! c" by blast
  with assms(7) show False by simp
qed

lemma latin_range:
  assumes "latin g n0 n1" and "r < n0" and "c < n0"
  shows "1 \<le> g ! r ! c" and "g ! r ! c \<le> int n0"
  using assms unfolding latin_def by blast+

lemma latin_complete_grid:
  assumes s: "sq g n0" and n: "n0 = n1 * n1" and l: "latin g n0 n1"
  shows "complete_grid n0 g"
  unfolding complete_grid_units[OF s n]
proof (intro conjI allI impI)
  fix r assume r: "r < n0"
  show "inj_on (cellv g) (set (map (Pair r) [0..<n0]))"
  proof (rule inj_onI)
    fix p q assume p: "p \<in> set (map (Pair r) [0..<n0])" and q: "q \<in> set (map (Pair r) [0..<n0])"
      and e: "cellv g p = cellv g q"
    obtain c c' where pc: "p = (r, c)" "c < n0" and qc: "q = (r, c')" "c' < n0"
      using p q by auto
    have "peer n1 r c' r c" by (simp add: peer_def)
    moreover have "g ! r ! c = g ! r ! c'" using e pc qc by (simp add: cellv_def)
    ultimately show "p = q"
      using latinD[OF l r qc(2) r pc(2)] pc qc by simp
  qed
  show "cellv g ` set (map (Pair r) [0..<n0]) \<subseteq> {1..int n0}"
    using latin_range[OF l r] by (auto simp: cellv_def)
next
  fix y assume y: "y < n0"
  show "inj_on (cellv g) (set (map (\<lambda>r. (r, y)) [0..<n0]))"
  proof (rule inj_onI)
    fix p q assume p: "p \<in> set (map (\<lambda>r. (r, y)) [0..<n0])"
      and q: "q \<in> set (map (\<lambda>r. (r, y)) [0..<n0])"
      and e: "cellv g p = cellv g q"
    obtain r r' where pc: "p = (r, y)" "r < n0" and qc: "q = (r', y)" "r' < n0"
      using p q by auto
    have "peer n1 r' y r y" by (simp add: peer_def)
    moreover have "g ! r ! y = g ! r' ! y" using e pc qc by (simp add: cellv_def)
    ultimately show "p = q"
      using latinD[OF l qc(2) y pc(2) y] pc qc by simp
  qed
  show "cellv g ` set (map (\<lambda>r. (r, y)) [0..<n0]) \<subseteq> {1..int n0}"
    using latin_range[OF l _ y] by (auto simp: cellv_def)
next
  fix br bc assume br: "br < n1" and bc: "bc < n1"
  have n1: "0 < n1" using br by simp
  have inb: "\<And>r c. r div n1 = br \<Longrightarrow> c div n1 = bc \<Longrightarrow> r < n0 \<and> c < n0"
  proof -
    fix r c :: nat assume a: "r div n1 = br" "c div n1 = bc"
    have "r < br * n1 + n1" "c < bc * n1 + n1"
      using a div_eq_iff_range[OF n1] by auto
    moreover have "Suc br * n1 \<le> n1 * n1" "Suc bc * n1 \<le> n1 * n1"
      using br bc by (metis Suc_leI mult_le_mono1)+
    ultimately show "r < n0 \<and> c < n0" using n by simp
  qed
  show "inj_on (cellv g) (set (List.product [br * n1..<br * n1 + n1] [bc * n1..<bc * n1 + n1]))"
    unfolding set_box_cells[OF n1]
  proof (rule inj_onI)
    fix p q assume p: "p \<in> {(r, c). r div n1 = br \<and> c div n1 = bc}"
      and q: "q \<in> {(r, c). r div n1 = br \<and> c div n1 = bc}"
      and e: "cellv g p = cellv g q"
    obtain r c r' c' where pc: "p = (r, c)" "r div n1 = br" "c div n1 = bc"
      and qc: "q = (r', c')" "r' div n1 = br" "c' div n1 = bc"
      using p q by auto
    have b: "r < n0" "c < n0" "r' < n0" "c' < n0"
      using inb pc qc by blast+
    have "peer n1 r' c' r c" using pc qc by (simp add: peer_def)
    moreover have "g ! r ! c = g ! r' ! c'" using e pc qc by (simp add: cellv_def)
    ultimately show "p = q"
      using latinD[OF l b(3,4,1,2)] pc qc by simp
  qed
  show "cellv g ` set (List.product [br * n1..<br * n1 + n1] [bc * n1..<bc * n1 + n1])
        \<subseteq> {1..int n0}"
    unfolding set_box_cells[OF n1]
  proof
    fix v assume "v \<in> cellv g ` {(r, c). r div n1 = br \<and> c div n1 = bc}"
    then obtain r c where rc: "v = g ! r ! c" "r div n1 = br" "c div n1 = bc"
      by (auto simp: cellv_def)
    have "r < n0" "c < n0" using inb rc by blast+
    then show "v \<in> {1..int n0}" using latin_range[OF l] rc(1) by simp
  qed
qed

lemma complete_grid_sq: "complete_grid n0 g \<Longrightarrow> sq g n0 \<and> n0 = isqrt n0 * isqrt n0"
  by (simp add: complete_grid_def sq_def list_all_iff)



section \<open>Arrays that pass the validation\<close>

lemma ndarray_sq:
  assumes "is_ndarray g" and "shape0 g = n0" and "shape1 g = n0"
  shows "sq g n0"
  using assms by (simp add: is_ndarray_def shape0_def sq_def list_all_iff)

lemma Max_bounded:
  assumes "concat g \<noteq> []" and "Max (set (concat g)) \<le> int n0"
  shows "bounded g n0"
  unfolding bounded_def
proof (intro ballI)
  fix r v assume "r \<in> set g" "v \<in> set r"
  then have "v \<in> set (concat g)" by auto
  then have "v \<le> Max (set (concat g))" by (intro Max_ge) auto
  with assms(2) show "v \<le> int n0" by simp
qed

lemma set_zero_positions:
  assumes "sq g n0"
  shows "set (zero_positions g) = {(x, y). x < n0 \<and> y < n0 \<and> g ! x ! y = 0}"
proof (intro set_eqI)
  fix p :: "nat \<times> nat"
  obtain x y where p: "p = (x, y)" by (cases p)
  show "p \<in> set (zero_positions g) \<longleftrightarrow> p \<in> {(x, y). x < n0 \<and> y < n0 \<and> g ! x ! y = 0}"
    unfolding p in_zero_positions using sq_length[OF assms] sq_row[OF assms] by auto
qed

section \<open>The carving loop\<close>

text \<open>
  The loop of gen_sudoku_puzzle on a square array of bounded digits: it raises nothing, and without a cap it is the fold of one rule over the shuffled cell numbers.
\<close>

definition clear_if_single :: "nat \<Rightarrow> nat \<Rightarrow> grid \<Rightarrow> nat \<Rightarrow> grid" where
  "clear_if_single n0 n1 arr i =
     (let x = i div n0; y = i mod n0; tmp = upd arr x y 0
      in if card ({1..int n0} - set (exist_lst tmp n1 x y)) = 1 then upd arr x y 0 else arr)"

lemma available_digits_error: "available_digits sl g pos = Inl e \<Longrightarrow> \<not> invalid_solution e"
  by (auto simp: available_digits_def invalid_solution_def Let_def
           split: if_splits option.splits prod.splits)

lemma carve_error: "carve sl n0 idx arr nmax = Inl e \<Longrightarrow> \<not> invalid_solution e"
proof (induction idx arbitrary: arr nmax)
  case Nil
  then show ?case by simp
next
  case (Cons i idx)
  let ?tmp = "upd arr (mx n0 ! i) (my n0 ! i) 0"
  show ?case
  proof (cases "available_digits sl ?tmp (Some (int (mx n0 ! i), int (my n0 ! i)))")
    case (Inl e')
    then have "e = e'" using Cons.prems by (simp add: Let_def)
    then show ?thesis using available_digits_error[OF Inl] by simp
  next
    case (Inr r)
    obtain a px py where r: "r = (a, px, py)" by (cases r)
    have "carve sl n0 idx (upd arr (mx n0 ! i) (my n0 ! i) 0) (nmax - 1) = Inl e
          \<or> carve sl n0 idx arr nmax = Inl e"
      using Cons.prems unfolding carve.simps Let_def Inr r
      by (simp split: if_splits)
    then show ?thesis using Cons.IH by blast
  qed
qed

lemma mx_nth: "i < n0 * n0 \<Longrightarrow> mx n0 ! i = i div n0"
  by (simp add: mx_def)

lemma my_nth: "i < n0 * n0 \<Longrightarrow> my n0 ! i = i mod n0"
  by (simp add: my_def)

lemma cell_bounds:
  fixes i n0 :: nat
  assumes "i < n0 * n0"
  shows "i div n0 < n0" and "i mod n0 < n0"
proof -
  have "0 < n0" using assms by (cases n0) auto
  then show "i mod n0 < n0" by simp
  show "i div n0 < n0" using assms by (simp add: less_mult_imp_div_less)
qed

lemma set_avail_at: "set (avail_at sl g n0 n1 x y) = {1..int n0} - set (exist_lst g n1 x y)"
  by (simp add: avail_at_def lister_set)

lemma length_avail_at_card:
  "length (avail_at sl g n0 n1 x y) = card ({1..int n0} - set (exist_lst g n1 x y))"
  using distinct_card[OF distinct_avail_at, of sl g n0 n1 x y] by (simp add: set_avail_at)

lemma carve_step:
  assumes s: "sq arr n0" and b: "bounded arr n0" and n: "n0 = n1 * n1" and i: "i < n0 * n0"
  shows "carve sl n0 (i # idx) arr nmax =
     (if card ({1..int n0}
            - set (exist_lst (upd arr (i div n0) (i mod n0) 0) n1 (i div n0) (i mod n0))) = 1
      then (if nmax - 1 = 0 then Inr (upd arr (i div n0) (i mod n0) 0)
            else carve sl n0 idx (upd arr (i div n0) (i mod n0) 0) (nmax - 1))
      else carve sl n0 idx arr nmax)"
proof -
  let ?x = "i div n0" and ?y = "i mod n0"
  let ?tmp = "upd arr ?x ?y 0"
  have p: "0 < n0" using i by (cases n0) auto
  note xy = cell_bounds[OF i]
  have A: "available_digits sl ?tmp (Some (int ?x, int ?y)) = Inr ([avail_at sl ?tmp n0 n1 ?x ?y], [?x], [?y])"
    by (rule available_digits_Some[OF sq_upd[OF s] n p bounded_upd[OF b] xy]) simp
  have "carve sl n0 (i # idx) arr nmax =
     (if length (avail_at sl ?tmp n0 n1 ?x ?y) = 1
      then (if nmax - 1 = 0 then Inr ?tmp else carve sl n0 idx ?tmp (nmax - 1))
      else carve sl n0 idx arr nmax)"
    unfolding carve.simps Let_def mx_nth[OF i] my_nth[OF i] A by simp
  then show ?thesis unfolding length_avail_at_card .
qed

lemma clear_if_single_eq:
  "clear_if_single n0 n1 arr i =
     (if card ({1..int n0}
            - set (exist_lst (upd arr (i div n0) (i mod n0) 0) n1 (i div n0) (i mod n0))) = 1
      then upd arr (i div n0) (i mod n0) 0 else arr)"
  by (simp add: clear_if_single_def Let_def)

lemma clear_if_single_inv:
  assumes s: "sq arr n0" and i: "i < n0 * n0"
  shows "sq (clear_if_single n0 n1 arr i) n0"
    and "\<And>x y. x < n0 \<Longrightarrow> y < n0 \<Longrightarrow>
          clear_if_single n0 n1 arr i ! x ! y = arr ! x ! y \<or> clear_if_single n0 n1 arr i ! x ! y = 0"
proof -
  show "sq (clear_if_single n0 n1 arr i) n0"
    using sq_upd[OF s] s unfolding clear_if_single_eq by simp
  fix x y assume "x < n0" "y < n0"
  then show "clear_if_single n0 n1 arr i ! x ! y = arr ! x ! y \<or> clear_if_single n0 n1 arr i ! x ! y = 0"
    using nth_upd[OF s cell_bounds[OF i]] unfolding clear_if_single_eq by simp
qed

lemma clear_if_single_bounded:
  "bounded arr n0 \<Longrightarrow> bounded (clear_if_single n0 n1 arr i) n0"
  using bounded_upd[of arr n0 0] unfolding clear_if_single_eq by simp


lemma carve_Inr:
  assumes "sq arr n0" and "bounded arr n0" and "n0 = n1 * n1" and "\<forall>i \<in> set idx. i < n0 * n0"
  shows "\<exists>p. carve sl n0 idx arr nmax = Inr p"
  using assms(1,2,4)
proof (induction idx arbitrary: arr nmax)
  case Nil
  then show ?case by simp
next
  case (Cons i idx)
  have i: "i < n0 * n0" using Cons.prems(3) by simp
  have rest: "\<forall>i \<in> set idx. i < n0 * n0" using Cons.prems(3) by simp
  note S = carve_step[OF Cons.prems(1,2) assms(3) i, of sl idx nmax]
  have 1: "\<exists>p. carve sl n0 idx arr nmax = Inr p"
    by (rule Cons.IH[OF Cons.prems(1,2) rest])
  have 2: "\<exists>p. carve sl n0 idx (clear_if_single n0 n1 arr i) (nmax - 1) = Inr p"
    by (rule Cons.IH[OF clear_if_single_inv(1)[OF Cons.prems(1) i]
          clear_if_single_bounded[OF Cons.prems(2)] rest])
  show ?case unfolding S using 1 2 unfolding clear_if_single_eq by (simp split: if_splits)
qed



section \<open>The solver at two grids\<close>

text \<open>
  C1. The claim is right and the program is not: on this 4x4 grid the last cell of the first
  row has no candidate, and \<open>solve_sudoku\<close> returns \<open>None\<close> where its documentation promises
  a list of solutions; on the second grid, which has no completion either, the dead ends
  come after a branching step and the result is the empty list.
\<close>

theorem solve_sudoku_dead_end_returns_None:
  "solve_sudoku ascending [[1, 2, 3, 0], [0, 0, 0, 4], [0, 0, 0, 0], [0, 0, 0, 0]] = Inr None
   \<and> solve_sudoku ascending [[0, 0, 3, 4], [2, 0, 0, 0], [0, 0, 0, 0], [0, 0, 0, 0]] = Inr (Some [])"
  by code_simp

text \<open>
  C2. The claim is right and the program is not: this partial grid is valid, two empty cells
  of its first row both have the single candidate 2, both are filled in the same round, and
  the grid returned as the one solution holds 2 twice in its first row.
\<close>

theorem solve_sudoku_unsound:
  "valid_partial 4 [[3, 0, 4, 0], [0, 4, 0, 3], [4, 3, 2, 1], [2, 1, 3, 4]]
   \<and> solve_sudoku ascending [[3, 0, 4, 0], [0, 4, 0, 3], [4, 3, 2, 1], [2, 1, 3, 4]]
       = Inr (Some [[[3, 2, 4, 2], [1, 4, 1, 3], [4, 3, 2, 1], [2, 1, 3, 4]]])
   \<and> \<not> complete_grid 4 [[3, 2, 4, 2], [1, 4, 1, 3], [4, 3, 2, 1], [2, 1, 3, 4]]
   \<and> agrees [[3, 0, 4, 0], [0, 4, 0, 3], [4, 3, 2, 1], [2, 1, 3, 4]]
             [[3, 2, 4, 2], [1, 4, 1, 3], [4, 3, 2, 1], [2, 1, 3, 4]]"
  by code_simp


section \<open>The size check of gen\_sudoku\_full\<close>

text \<open>
  C8, as amended. Whatever integer the float power gives as the root, the size check of
  \<open>gen_sudoku_full\<close> rejects every size that is not a perfect square with its own error. It
  has no test of the sign: 0, whose root is 0, passes and gives the empty array.
\<close>

theorem gen_sudoku_full_size_check:
  "(int_root N = Inr r \<and> (\<forall>k::int. N \<noteq> k * k)
      \<longrightarrow> gen_sudoku_full sl int_root rng st N = Some (Inl SizeNotIntOrSquared))
   \<and> (int_root 0 = Inr 0 \<longrightarrow> gen_sudoku_full sl int_root rng st 0 = Some (Inr []))"
proof (intro conjI impI)
  assume a: "int_root N = Inr r \<and> (\<forall>k::int. N \<noteq> k * k)"
  then have "N \<noteq> r * r" by blast
  with a show "gen_sudoku_full sl int_root rng st N = Some (Inl SizeNotIntOrSquared)"
    by (simp add: gen_sudoku_full_def)
next
  assume "int_root 0 = Inr 0"
  then show "gen_sudoku_full sl int_root rng st 0 = Some (Inr [])"
    by (simp add: gen_sudoku_full_def gen_loop.simps mx_def)
qed

text \<open>Size 3, whose root has the integer part 1, and size 0.\<close>

theorem gen_sudoku_full_size_check_witness:
  "small_int_root 3 = Inr 1 \<and> (\<forall>k::int. 3 \<noteq> k * k)
   \<and> gen_sudoku_full ascending small_int_root id_rng () 3 = Some (Inl SizeNotIntOrSquared)
   \<and> small_int_root 0 = Inr 0"
proof -
  have r3: "small_int_root 3 = Inr 1" by code_simp
  have r0: "small_int_root 0 = Inr 0" by code_simp
  have "(3::int) \<noteq> int (isqrt (nat 3) * isqrt (nat 3))" by code_simp
  then have sq: "\<forall>k::int. 3 \<noteq> k * k"
    using int_square_iff_isqrt[of 3] by auto
  show ?thesis
    using r3 r0 sq gen_sudoku_full_size_check[of small_int_root 3 1 ascending id_rng "()"]
    by simp
qed

text \<open>
  C8 as stated fails: size 0 is not a positive perfect square, and it is not rejected.
\<close>

theorem gen_sudoku_full_zero_counterexample:
  "gen_sudoku_full ascending small_int_root id_rng () 0 = Some (Inr [])"
  by code_simp


section \<open>The one-sided value check of available\_digits\<close>

lemma set_avail_at_positive:
  "set (avail_at sl g n0 n1 x y) = {1..int n0} - {u \<in> set (exist_lst g n1 x y). 0 < u}"
  unfolding set_avail_at by auto

text \<open>
  C10. On a square array whose side is a perfect square and whose greatest entry is at most
  the side, \<open>available_digits\<close> raises nothing, whatever the sign of the other entries. The
  cells it lists are exactly those that hold 0, in row-major order, so a negative entry
  counts as filled; and the candidate set of a cell is \<open>1..N\<close> without the positive digits
  of its row, column and box, so a negative entry removes no candidate.
\<close>

theorem available_digits_one_sided:
  assumes "is_ndarray g" and "shape0 g = shape1 g" and "shape0 g = n1 * n1"
    and "concat g \<noteq> []" and "Max (set (concat g)) \<le> int (shape0 g)"
  shows "(\<exists>avail. available_digits sl g None
                    = Inr (avail, map fst (zero_positions g), map snd (zero_positions g))
            \<and> length avail = length (zero_positions g)
            \<and> (\<forall>k < length avail.
                  set (avail ! k) = {1..int (shape0 g)}
                    - {u \<in> set (exist_lst g n1 (fst (zero_positions g ! k))
                                              (snd (zero_positions g ! k))). 0 < u}))
         \<and> set (zero_positions g) = {(x, y). x < shape0 g \<and> y < shape0 g \<and> g ! x ! y = 0}
         \<and> (\<forall>x < shape0 g. \<forall>y < shape0 g.
               \<exists>a. available_digits sl g (Some (int x, int y)) = Inr ([a], [x], [y])
                  \<and> set a = {1..int (shape0 g)} - {u \<in> set (exist_lst g n1 x y). 0 < u})"
proof -
  let ?n0 = "shape0 g"
  let ?zp = "zero_positions g"
  have s: "sq g ?n0" using assms(1,2) by (intro ndarray_sq) simp_all
  have b: "bounded g ?n0" by (rule Max_bounded[OF assms(4,5)])
  have p: "0 < ?n0" using assms(4) by (cases g) (auto simp: shape0_def)
  let ?avail = "map (\<lambda>(ix, iy). avail_at sl g ?n0 n1 ix iy) ?zp"
  have 1: "\<exists>avail. available_digits sl g None
                    = Inr (avail, map fst ?zp, map snd ?zp)
            \<and> length avail = length ?zp
            \<and> (\<forall>k < length avail.
                  set (avail ! k) = {1..int ?n0}
                    - {u \<in> set (exist_lst g n1 (fst (?zp ! k)) (snd (?zp ! k))). 0 < u})"
  proof (intro exI[of _ ?avail] conjI)
    show "available_digits sl g None = Inr (?avail, map fst ?zp, map snd ?zp)"
      by (rule available_digits_None[OF s assms(3) p b])
    show "length ?avail = length ?zp" by simp
    show "\<forall>k < length ?avail.
        set (?avail ! k) = {1..int ?n0}
           - {u \<in> set (exist_lst g n1 (fst (?zp ! k)) (snd (?zp ! k))). 0 < u}"
      by (simp add: case_prod_beta set_avail_at_positive)
  qed
  have 2: "set ?zp = {(x, y). x < ?n0 \<and> y < ?n0 \<and> g ! x ! y = 0}"
    by (rule set_zero_positions[OF s])
  have 3: "\<forall>x < ?n0. \<forall>y < ?n0.
               \<exists>a. available_digits sl g (Some (int x, int y)) = Inr ([a], [x], [y])
                  \<and> set a = {1..int ?n0} - {u \<in> set (exist_lst g n1 x y). 0 < u}"
  proof (intro allI impI)
    fix x y assume x: "x < ?n0" and y: "y < ?n0"
    show "\<exists>a. available_digits sl g (Some (int x, int y)) = Inr ([a], [x], [y])
                  \<and> set a = {1..int ?n0} - {u \<in> set (exist_lst g n1 x y). 0 < u}"
    proof (intro exI[of _ "avail_at sl g ?n0 n1 x y"] conjI)
      show "available_digits sl g (Some (int x, int y)) = Inr ([avail_at sl g ?n0 n1 x y], [x], [y])"
        by (rule available_digits_Some[OF s assms(3) p b x y])
      show "set (avail_at sl g ?n0 n1 x y) = {1..int ?n0} - {u \<in> set (exist_lst g n1 x y). 0 < u}"
        by (rule set_avail_at_positive)
    qed
  qed
  show ?thesis by (intro conjI 1 2 3)
qed

text \<open>A 4x4 array with three negative entries and three empty cells.\<close>

theorem available_digits_one_sided_witness:
  "Max (set (concat [[- 1, 0, 3, 4], [0, 0, - 7, 2], [2, 1, 4, 3], [4, 3, 2, - 2]])) \<le> (4::int)
   \<and> (\<exists>avail. available_digits ascending
                  [[- 1, 0, 3, 4], [0, 0, - 7, 2], [2, 1, 4, 3], [4, 3, 2, - 2]] None
                = Inr (avail, [0, 1, 1], [1, 0, 1]) \<and> length avail = 3)"
proof -
  let ?g = "[[- 1, 0, 3, 4], [0, 0, - 7, 2], [2, 1, 4, 3], [4, 3, 2, - 2]] :: grid"
  have h: "is_ndarray ?g" "shape0 ?g = shape1 ?g" "shape0 ?g = 2 * 2" "concat ?g \<noteq> []"
    "Max (set (concat ?g)) \<le> int (shape0 ?g)"
    by code_simp+
  have m: "Max (set (concat ?g)) \<le> 4" by code_simp
  have e: "map fst (zero_positions ?g) = [0, 1, 1]" "map snd (zero_positions ?g) = [1, 0, 1]"
    "length (zero_positions ?g) = 3"
    by code_simp+
  note T = conjunct1[OF available_digits_one_sided[OF h, of ascending]]
  then obtain avail where
    "available_digits ascending ?g None
       = Inr (avail, map fst (zero_positions ?g), map snd (zero_positions ?g))"
    "length avail = length (zero_positions ?g)"
    by blast
  then have "available_digits ascending ?g None = Inr (avail, [0, 1, 1], [1, 0, 1])
             \<and> length avail = 3"
    unfolding e by simp
  with m show ?thesis by blast
qed


section \<open>The removal cap of gen\_customized\_puzzle\<close>

lemma cnt_row_update_le_Suc:
  "length (filter (\<lambda>v. v = (0::int)) (r[y := w])) \<le> Suc (length (filter (\<lambda>v. v = 0) r))"
  by (induction r arbitrary: y) (auto split: nat.splits)

lemma sum_list_map_update_le_Suc:
  fixes f :: "'a \<Rightarrow> nat"
  shows "f r' \<le> Suc (f (g ! x)) \<Longrightarrow> sum_list (map f (g[x := r'])) \<le> Suc (sum_list (map f g))"
  by (induction g arbitrary: x) (auto split: nat.splits)

lemma count_zeros_upd_le_Suc: "count_zeros (upd g x y w) \<le> Suc (count_zeros g)"
  unfolding count_zeros_sum upd_def
  by (rule sum_list_map_update_le_Suc) (rule cnt_row_update_le_Suc)

lemma carve_cap:
  "1 \<le> nmax \<Longrightarrow> carve sl n0 idx arr nmax = Inr p \<Longrightarrow> count_zeros p \<le> count_zeros arr + nat nmax"
proof (induction idx arbitrary: arr nmax)
  case Nil
  then show ?case by simp
next
  case (Cons i idx)
  let ?tmp = "upd arr (mx n0 ! i) (my n0 ! i) 0"
  obtain a px py where A: "available_digits sl ?tmp (Some (int (mx n0 ! i), int (my n0 ! i)))
                           = Inr (a, px, py)"
    using Cons.prems(2) by (cases "available_digits sl ?tmp (Some (int (mx n0 ! i), int (my n0 ! i)))")
      (auto simp: Let_def)
  show ?case
  proof (cases "length (a ! 0) = 1")
    case False
    then have "carve sl n0 idx arr nmax = Inr p"
      using Cons.prems(2) by (simp add: Let_def A)
    then show ?thesis by (rule Cons.IH[OF Cons.prems(1)])
  next
    case True
    show ?thesis
    proof (cases "nmax - 1 = 0")
      case z: True
      then have "p = ?tmp" using Cons.prems(2) True by (simp add: Let_def A)
      then show ?thesis using count_zeros_upd_le_Suc[of arr "mx n0 ! i" "my n0 ! i" 0] z by simp
    next
      case nz: False
      then have r: "carve sl n0 idx ?tmp (nmax - 1) = Inr p"
        using Cons.prems(2) True by (simp add: Let_def A)
      have "1 \<le> nmax - 1" using Cons.prems(1) nz by simp
      then have "count_zeros p \<le> count_zeros ?tmp + nat (nmax - 1)"
        using r by (rule Cons.IH)
      also have "\<dots> \<le> Suc (count_zeros arr) + nat (nmax - 1)"
        using count_zeros_upd_le_Suc[of arr "mx n0 ! i" "my n0 ! i" 0] by simp
      also have "\<dots> = count_zeros arr + nat nmax" using Cons.prems(1) by simp
      finally show ?thesis .
    qed
  qed
qed

lemma gen_sudoku_puzzle_Inr:
  assumes "gen_sudoku_puzzle sl rng st g r = Inr p"
  shows "\<not> Min (set (concat g)) < 1" and "concat g \<noteq> []"
    and "\<exists>cap. nmax_idx_init r (shape0 g) = Inr cap
           \<and> carve sl (shape0 g) (fst (py_shuffle rng st [0..<shape0 g ^ 2])) g cap = Inr p"
proof -
  note D = assms[unfolded gen_sudoku_puzzle_def Let_def]
  have 1: "is_ndarray g"
  proof (rule ccontr)
    assume "\<not> is_ndarray g" with D show False by simp
  qed
  show 2: "concat g \<noteq> []"
  proof
    assume "concat g = []" with D 1 show False by simp
  qed
  have 3: "\<not> (int (shape0 g) < Max (set (concat g)) \<or> Min (set (concat g)) < 1)"
  proof
    assume "int (shape0 g) < Max (set (concat g)) \<or> Min (set (concat g)) < 1"
    with D 1 2 show False by (simp only: not_not if_True if_False simp_thms) simp
  qed
  then show "\<not> Min (set (concat g)) < 1" by blast
  have 4: "\<not> list_ex (\<lambda>row. card (set row) \<noteq> shape0 g) g"
  proof
    assume "list_ex (\<lambda>row. card (set row) \<noteq> shape0 g) g"
    with D 1 2 3 show False by (simp only: not_not if_True if_False simp_thms) simp
  qed
  have 5: "(case nmax_idx_init r (shape0 g) of
             Inl e \<Rightarrow> Inl e
           | Inr nmax_idx \<Rightarrow>
               carve sl (shape0 g) (fst (py_shuffle rng st [0..<shape0 g ^ 2])) g nmax_idx) = Inr p"
    using D 1 2 3 4 by (simp only: not_not if_True if_False simp_thms)
  then show "\<exists>cap. nmax_idx_init r (shape0 g) = Inr cap
           \<and> carve sl (shape0 g) (fst (py_shuffle rng st [0..<shape0 g ^ 2])) g cap = Inr p"
    by (cases "nmax_idx_init r (shape0 g)") auto
qed

lemma nmax_idx_init_Some:
  assumes "nmax_idx_init (Some r) n0 = Inr cap"
  shows "cap = max 1 (py_int (fl (r * fl (of_nat (n0 ^ 2)))))"
  using assms by (simp add: nmax_idx_init_def Let_def split: if_splits)

lemma py_int_le_round_even: "max 1 (py_int q) \<le> max 1 (round_even q)"
proof (cases "0 \<le> q")
  case True
  then have "py_int q = \<lfloor>q\<rfloor>" by (simp add: py_int_def)
  moreover have "\<lfloor>q\<rfloor> \<le> round_even q" by (simp add: round_even_def Let_def)
  ultimately show ?thesis by simp
next
  case False
  then have "\<lceil>q\<rceil> \<le> 0" by (simp add: ceiling_le_zero)
  then have "py_int q \<le> 0" using False by (simp add: py_int_def)
  then show ?thesis by simp
qed

lemma no_zero_Min:
  assumes "concat g \<noteq> []" and "\<not> Min (set (concat g)) < 1"
  shows "count_zeros g = 0"
proof -
  have "0 \<notin> set (concat g)"
  proof
    assume "0 \<in> set (concat g)"
    then have "Min (set (concat g)) \<le> 0" by (intro Min_le) auto
    with assms(2) show False by simp
  qed
  then have "\<forall>x\<in>set (concat g). x \<noteq> 0" by blast
  then have "filter (\<lambda>v. v = 0) (concat g) = []" by (simp only: filter_empty_conv)
  then show ?thesis unfolding count_zeros_def by (simp only: list.size)
qed

lemma gen_customized_puzzle_example:
  "gen_customized_puzzle ascending small_int_root id_rng () 4 (3 / 4)
     = Some (Inr ([[0, 0, 0, 0], [0, 0, 1, 2], [2, 1, 4, 3], [4, 3, 2, 1]],
                  [[1, 2, 3, 4], [3, 4, 1, 2], [2, 1, 4, 3], [4, 3, 2, 1]]))"
  by code_simp

text \<open>
  Claim C7, as the code has it. Whenever \<open>gen_customized_puzzle\<close> returns a puzzle and its
  solution, the first call of \<open>gen_sudoku_puzzle\<close> (no cap) returned some \<open>puzzle_max\<close>, the
  second call is the carving loop run on the solution with the cap
  \<open>max([1, int(removed_ratio * n0**2)])\<close>, where \<open>n0\<close> is the side of the solution,
  \<open>removed_ratio = difficulty * max_removed_ratio\<close> and every operation is the floating-point
  one. \<open>int()\<close> truncates the product toward zero, it does not round it: the cap is never
  above the rounded value, and it can be below it. The loop honours the cap: the returned puzzle
  has at most that many empty cells.
\<close>

theorem gen_customized_puzzle_cap:
  assumes "gen_customized_puzzle sl int_root rng st array_size difficulty
             = Some (Inr (c_puzzle, c_solution))"
  shows "\<exists>puzzle_max cap.
           gen_sudoku_puzzle sl rng st c_solution None = Inr puzzle_max
         \<and> gen_sudoku_puzzle sl rng st c_solution
               (Some (removed_ratio difficulty puzzle_max array_size)) = Inr c_puzzle
         \<and> nmax_idx_init (Some (removed_ratio difficulty puzzle_max array_size))
               (shape0 c_solution) = Inr cap
         \<and> cap = max 1 (py_int (fl (removed_ratio difficulty puzzle_max array_size
                                      * fl (of_nat (shape0 c_solution ^ 2)))))
         \<and> cap \<le> max 1 (round_even (fl (removed_ratio difficulty puzzle_max array_size
                                      * fl (of_nat (shape0 c_solution ^ 2)))))
         \<and> carve sl (shape0 c_solution)
               (fst (py_shuffle rng st [0..<shape0 c_solution ^ 2])) c_solution cap = Inr c_puzzle
         \<and> count_zeros c_puzzle \<le> nat cap"
proof -
  obtain sol where F: "gen_sudoku_full sl int_root rng st array_size = Some (Inr sol)"
    using assms unfolding gen_customized_puzzle_def
    by (auto split: option.splits sum.splits)
  obtain puzzle_max where M: "gen_sudoku_puzzle sl rng st sol None = Inr puzzle_max"
    using assms F unfolding gen_customized_puzzle_def
    by (auto split: option.splits sum.splits)
  let ?r = "removed_ratio difficulty puzzle_max array_size"
  have P: "gen_sudoku_puzzle sl rng st sol (Some ?r) = Inr c_puzzle" and S: "c_solution = sol"
    using assms F M unfolding gen_customized_puzzle_def
    by (auto split: option.splits sum.splits)
  obtain cap where C: "nmax_idx_init (Some ?r) (shape0 sol) = Inr cap"
    and K: "carve sl (shape0 sol) (fst (py_shuffle rng st [0..<shape0 sol ^ 2])) sol cap
              = Inr c_puzzle"
    using gen_sudoku_puzzle_Inr(3)[OF P] by blast
  have E: "cap = max 1 (py_int (fl (?r * fl (of_nat (shape0 sol ^ 2)))))"
    using C by (rule nmax_idx_init_Some)
  then have 1: "1 \<le> cap" by simp
  have R: "cap \<le> max 1 (round_even (fl (?r * fl (of_nat (shape0 sol ^ 2)))))"
    unfolding E by (rule py_int_le_round_even)
  have "count_zeros sol = 0"
    using gen_sudoku_puzzle_Inr(2)[OF P] gen_sudoku_puzzle_Inr(1)[OF P] by (rule no_zero_Min)
  then have Z: "count_zeros c_puzzle \<le> nat cap"
    using carve_cap[OF 1 K] by simp
  show ?thesis
    unfolding S
    by (intro exI[of _ puzzle_max] exI[of _ cap] conjI M P C E R K Z)
qed

theorem gen_customized_puzzle_cap_witness:
  "gen_customized_puzzle ascending small_int_root id_rng () 4 (3 / 4)
     = Some (Inr ([[0, 0, 0, 0], [0, 0, 1, 2], [2, 1, 4, 3], [4, 3, 2, 1]],
                  [[1, 2, 3, 4], [3, 4, 1, 2], [2, 1, 4, 3], [4, 3, 2, 1]]))
   \<and> (\<exists>puzzle_max cap.
           gen_sudoku_puzzle ascending id_rng () [[1, 2, 3, 4], [3, 4, 1, 2], [2, 1, 4, 3], [4, 3, 2, 1]]
              None = Inr puzzle_max
         \<and> gen_sudoku_puzzle ascending id_rng () [[1, 2, 3, 4], [3, 4, 1, 2], [2, 1, 4, 3], [4, 3, 2, 1]]
               (Some (removed_ratio (3 / 4) puzzle_max 4))
              = Inr [[0, 0, 0, 0], [0, 0, 1, 2], [2, 1, 4, 3], [4, 3, 2, 1]]
         \<and> nmax_idx_init (Some (removed_ratio (3 / 4) puzzle_max 4))
               (shape0 [[1, 2, 3, 4], [3, 4, 1, 2], [2, 1, 4, 3], [4, 3, 2, 1]]) = Inr cap
         \<and> cap = max 1 (py_int (fl (removed_ratio (3 / 4) puzzle_max 4
                  * fl (of_nat (shape0 [[1, 2, 3, 4], [3, 4, 1, 2], [2, 1, 4, 3], [4, 3, 2, 1]] ^ 2)))))
         \<and> cap \<le> max 1 (round_even (fl (removed_ratio (3 / 4) puzzle_max 4
                  * fl (of_nat (shape0 [[1, 2, 3, 4], [3, 4, 1, 2], [2, 1, 4, 3], [4, 3, 2, 1]] ^ 2)))))
         \<and> carve ascending (shape0 [[1, 2, 3, 4], [3, 4, 1, 2], [2, 1, 4, 3], [4, 3, 2, 1]])
               (fst (py_shuffle id_rng ()
                      [0..<shape0 [[1, 2, 3, 4], [3, 4, 1, 2], [2, 1, 4, 3], [4, 3, 2, 1]] ^ 2]))
               [[1, 2, 3, 4], [3, 4, 1, 2], [2, 1, 4, 3], [4, 3, 2, 1]] cap
              = Inr [[0, 0, 0, 0], [0, 0, 1, 2], [2, 1, 4, 3], [4, 3, 2, 1]]
         \<and> count_zeros [[0, 0, 0, 0], [0, 0, 1, 2], [2, 1, 4, 3], [4, 3, 2, 1]] \<le> nat cap)"
  by (rule conjI[OF gen_customized_puzzle_example
        gen_customized_puzzle_cap[OF gen_customized_puzzle_example]])

text \<open>
  The difficulty \<open>0.75\<close> at size 4 with the generator that leaves every list in place: the
  uncapped carving empties 9 cells, the product \<open>removed_ratio * n0**2\<close> is exactly \<open>6.75\<close>,
  rounding it gives 7, and the cap the code uses is 6; the puzzle has 6 empty cells.
\<close>

theorem gen_customized_puzzle_cap_counterexample:
  "gen_customized_puzzle ascending small_int_root id_rng () 4 (3 / 4)
     = Some (Inr ([[0, 0, 0, 0], [0, 0, 1, 2], [2, 1, 4, 3], [4, 3, 2, 1]],
                  [[1, 2, 3, 4], [3, 4, 1, 2], [2, 1, 4, 3], [4, 3, 2, 1]]))
   \<and> gen_sudoku_puzzle ascending id_rng () [[1, 2, 3, 4], [3, 4, 1, 2], [2, 1, 4, 3], [4, 3, 2, 1]] None
       = Inr [[0, 0, 0, 0], [0, 0, 1, 2], [0, 1, 0, 3], [0, 3, 2, 1]]
   \<and> removed_ratio (3 / 4) [[0, 0, 0, 0], [0, 0, 1, 2], [0, 1, 0, 3], [0, 3, 2, 1]] 4 = 27 / 64
   \<and> fl (removed_ratio (3 / 4) [[0, 0, 0, 0], [0, 0, 1, 2], [0, 1, 0, 3], [0, 3, 2, 1]] 4
          * fl (of_nat (shape0 [[1, 2, 3, 4], [3, 4, 1, 2], [2, 1, 4, 3], [4, 3, 2, 1]] ^ 2))) = 27 / 4
   \<and> max 1 (round_even (27 / 4)) = 7
   \<and> nmax_idx_init (Some (removed_ratio (3 / 4) [[0, 0, 0, 0], [0, 0, 1, 2], [0, 1, 0, 3], [0, 3, 2, 1]] 4))
         (shape0 [[1, 2, 3, 4], [3, 4, 1, 2], [2, 1, 4, 3], [4, 3, 2, 1]]) = Inr 6
   \<and> count_zeros [[0, 0, 0, 0], [0, 0, 1, 2], [2, 1, 4, 3], [4, 3, 2, 1]] = 6"
proof (intro conjI)
  show "gen_customized_puzzle ascending small_int_root id_rng () 4 (3 / 4)
     = Some (Inr ([[0, 0, 0, 0], [0, 0, 1, 2], [2, 1, 4, 3], [4, 3, 2, 1]],
                  [[1, 2, 3, 4], [3, 4, 1, 2], [2, 1, 4, 3], [4, 3, 2, 1]]))"
    by (rule gen_customized_puzzle_example)
qed code_simp+


section \<open>Carving a complete grid\<close>

lemma set_shuffle_upt:
  assumes "perm_rng rng"
  shows "set (fst (py_shuffle rng st [0..<m])) = {0..<m}"
proof -
  obtain p st' where r: "rng st m = (p, st')" by (cases "rng st m")
  have "mset p = mset [0..<m]" using assms r unfolding perm_rng_def by (metis fst_conv)
  then have p: "set p = {0..<m}" by (metis mset_eq_setD set_upt)
  have "fst (py_shuffle rng st [0..<m]) = map (\<lambda>k. [0..<m] ! k) p"
    by (simp add: py_shuffle_def r)
  also have "\<dots> = map (\<lambda>k. k) p"
    by (rule map_cong[OF refl]) (use p in auto)
  finally show ?thesis using p by simp
qed

lemma in_concat_sq:
  assumes "sq g n0" and "v \<in> set (concat g)"
  shows "\<exists>r < n0. \<exists>c < n0. v = g ! r ! c"
proof -
  from assms(2) obtain row where row: "row \<in> set g" "v \<in> set row" by auto
  then obtain r where r: "r < length g" "row = g ! r" by (auto simp: in_set_conv_nth)
  from row(2) obtain c where c: "c < length row" "v = row ! c" by (auto simp: in_set_conv_nth)
  have "r < n0" using r sq_length[OF assms(1)] by simp
  moreover have "c < n0" using c r sq_row[OF assms(1)] sq_length[OF assms(1)] by simp
  ultimately show ?thesis using r c by blast
qed


lemma complete_grid_checks:
  assumes c: "complete_grid n0 g" and p: "0 < n0"
  shows "is_ndarray g" and "shape0 g = n0" and "concat g \<noteq> []"
    and "\<not> (Max (set (concat g)) > int n0 \<or> Min (set (concat g)) < 1)"
    and "\<not> list_ex (\<lambda>row. card (set row) \<noteq> n0) g"
    and "bounded g n0"
proof -
  have s: "sq g n0" and n: "n0 = isqrt n0 * isqrt n0" using complete_grid_sq[OF c] by simp_all
  have l: "latin g n0 (isqrt n0)" by (rule complete_grid_latin[OF s n c])
  show "is_ndarray g" by (rule sq_is_ndarray[OF s])
  show "shape0 g = n0" using sq_length[OF s] by (simp add: shape0_def)
  have g0: "g ! 0 \<in> set g" using s p by (simp add: sq_def)
  then have "length (g ! 0) = n0" using s by (simp add: sq_def)
  then have "g ! 0 \<noteq> []" using p by auto
  with g0 show ne: "concat g \<noteq> []" by auto
  have rng: "\<And>v. v \<in> set (concat g) \<Longrightarrow> 1 \<le> v \<and> v \<le> int n0"
    using in_concat_sq[OF s] latin_range[OF l] by blast
  have "Max (set (concat g)) \<in> set (concat g)" "Min (set (concat g)) \<in> set (concat g)"
    using ne by (simp_all del: set_concat)
  then show "\<not> (Max (set (concat g)) > int n0 \<or> Min (set (concat g)) < 1)"
    using rng by fastforce
  show "bounded g n0" unfolding bounded_def using rng by auto
  have "list_all (\<lambda>u. sort u = [1..int n0]) g"
    using c by (simp add: complete_grid_def units_def)
  then have "\<And>row. row \<in> set g \<Longrightarrow> set row = {1..int n0}"
    unfolding sort_upto_iff list_all_iff by blast
  then have "\<And>row. row \<in> set g \<Longrightarrow> card (set row) = n0" by simp
  then show "\<not> list_ex (\<lambda>row. card (set row) \<noteq> n0) g" by (simp add: list_ex_iff)
qed

lemma gen_sudoku_puzzle_complete:
  assumes c: "complete_grid n0 g" and p: "0 < n0"
  shows "gen_sudoku_puzzle sl rng st g r
         = (case nmax_idx_init r n0 of
              Inl e \<Rightarrow> Inl e
            | Inr nmax_idx \<Rightarrow> carve sl n0 (fst (py_shuffle rng st [0..<n0 ^ 2])) g nmax_idx)"
proof -
  note C = complete_grid_checks[OF c p]
  have "\<not> int n0 < Max (set (concat g))" "\<not> Min (set (concat g)) < 1"
    using C(4) by blast+
  then show ?thesis
    unfolding gen_sudoku_puzzle_def Let_def using C(1,2,3,5)
    by (simp only: if_False if_True not_not simp_thms)
qed

lemma nmax_idx_init_None: "nmax_idx_init None n0 = Inr (- 1)"
  by (simp add: nmax_idx_init_def)

lemma nmax_idx_init_cases:
  "(\<exists>c. nmax_idx_init r n0 = Inr c) \<or> nmax_idx_init r n0 = Inl OverflowError"
  by (cases r) (simp_all add: nmax_idx_init_def Let_def)


lemma perm_rng_id: "perm_rng id_rng"
  by (simp add: perm_rng_def id_rng_def)

lemma perm_rng_rev: "perm_rng rev_rng"
  by (simp add: perm_rng_def rev_rng_def)



lemma gen_sudoku_puzzle_unfold:
  assumes "is_ndarray g" and "concat g \<noteq> []"
  shows "gen_sudoku_puzzle sl rng st g r =
     (if int (shape0 g) < Max (set (concat g)) \<or> Min (set (concat g)) < 1
      then Inl FullValueOverflow
      else if list_ex (\<lambda>row. card (set row) \<noteq> shape0 g) g then Inl FullInconsistent
      else (case nmax_idx_init r (shape0 g) of
              Inl e \<Rightarrow> Inl e
            | Inr nmax_idx \<Rightarrow>
                carve sl (shape0 g) (fst (py_shuffle rng st [0..<shape0 g ^ 2])) g nmax_idx))"
  unfolding gen_sudoku_puzzle_def Let_def using assms
  by (simp only: not_not if_True if_False simp_thms)

lemma gen_sudoku_puzzle_tail_error:
  assumes "(case nmax_idx_init r n0 of
              Inl e \<Rightarrow> Inl e
            | Inr nmax_idx \<Rightarrow> carve sl n0 idx g nmax_idx) = Inl e"
  shows "\<not> invalid_solution e"
proof (cases "nmax_idx_init r n0")
  case (Inl a)
  then have "a = OverflowError" using nmax_idx_init_cases[of r n0] by simp
  then show ?thesis using assms Inl by (simp add: invalid_solution_def)
next
  case (Inr c)
  then have "carve sl n0 idx g c = Inl e" using assms by simp
  then show ?thesis by (rule carve_error)
qed

text \<open>
  Claim C6, as the code has it. On a non-empty array, \<open>gen_sudoku_puzzle\<close> fails with one of
  its two errors about the solution exactly when some entry is outside \<open>1..N\<close> or some row
  does not hold \<open>N\<close> different values; columns and boxes are not looked at. A complete grid
  passes both checks: without a cap the call returns a puzzle, and with a cap it returns a
  puzzle unless the float product of the cap overflows.
\<close>

theorem gen_sudoku_puzzle_precondition:
  assumes "is_ndarray g" and "concat g \<noteq> []"
  shows "((\<exists>e. gen_sudoku_puzzle sl rng st g r = Inl e \<and> invalid_solution e)
            \<longleftrightarrow> (int (shape0 g) < Max (set (concat g)) \<or> Min (set (concat g)) < 1
                 \<or> (\<exists>row \<in> set g. card (set row) \<noteq> shape0 g)))
         \<and> (complete_grid (shape0 g) g \<and> perm_rng rng
              \<longrightarrow> (\<exists>p. gen_sudoku_puzzle sl rng st g None = Inr p)
                \<and> ((\<exists>p. gen_sudoku_puzzle sl rng st g r = Inr p)
                    \<or> gen_sudoku_puzzle sl rng st g r = Inl OverflowError))"
proof (intro conjI impI)
  let ?n0 = "shape0 g"
  let ?bad = "int ?n0 < Max (set (concat g)) \<or> Min (set (concat g)) < 1"
  let ?rows = "\<exists>row \<in> set g. card (set row) \<noteq> ?n0"
  show "(\<exists>e. gen_sudoku_puzzle sl rng st g r = Inl e \<and> invalid_solution e)
          \<longleftrightarrow> (int ?n0 < Max (set (concat g)) \<or> Min (set (concat g)) < 1 \<or> ?rows)"
  proof (cases ?bad)
    case True
    then have "gen_sudoku_puzzle sl rng st g r = Inl FullValueOverflow"
      unfolding gen_sudoku_puzzle_unfold[OF assms] by (simp only: if_True)
    then show ?thesis using True by (simp only: invalid_solution_def) blast
  next
    case nb: False
    show ?thesis
    proof (cases ?rows)
      case True
      then have "list_ex (\<lambda>row. card (set row) \<noteq> ?n0) g" by (simp add: list_ex_iff)
      then have "gen_sudoku_puzzle sl rng st g r = Inl FullInconsistent"
        unfolding gen_sudoku_puzzle_unfold[OF assms] using nb by (simp only: if_True if_False)
      then show ?thesis using True by (simp only: invalid_solution_def) blast
    next
      case False
      then have "\<not> list_ex (\<lambda>row. card (set row) \<noteq> ?n0) g" by (simp add: list_ex_iff)
      then have "gen_sudoku_puzzle sl rng st g r
                 = (case nmax_idx_init r ?n0 of
                      Inl e \<Rightarrow> Inl e
                    | Inr nmax_idx \<Rightarrow>
                        carve sl ?n0 (fst (py_shuffle rng st [0..<?n0 ^ 2])) g nmax_idx)"
        unfolding gen_sudoku_puzzle_unfold[OF assms] using nb by (simp only: if_False)
      then have "\<not> (\<exists>e. gen_sudoku_puzzle sl rng st g r = Inl e \<and> invalid_solution e)"
        using gen_sudoku_puzzle_tail_error[where r=r and ?n0.0="?n0" and sl=sl and g=g
                and idx="fst (py_shuffle rng st [0..<?n0 ^ 2])"]
        by auto
      then show ?thesis using nb False by blast
    qed
  qed
next
  assume a: "complete_grid (shape0 g) g \<and> perm_rng rng"
  let ?n0 = "shape0 g"
  let ?idx = "fst (py_shuffle rng st [0..<?n0 ^ 2])"
  have c: "complete_grid ?n0 g" and pr: "perm_rng rng" using a by simp_all
  have p: "0 < ?n0" using assms(2) by (cases g) (auto simp: shape0_def)
  have s: "sq g ?n0" and n: "?n0 = isqrt ?n0 * isqrt ?n0" using complete_grid_sq[OF c] by simp_all
  have b: "bounded g ?n0" by (rule complete_grid_checks(6)[OF c p])
  have bound: "\<forall>i \<in> set ?idx. i < ?n0 * ?n0"
    using set_shuffle_upt[OF pr, of st "?n0 ^ 2"] by (simp add: power2_eq_square)
  note K = carve_Inr[OF s b n bound]
  show "\<exists>p. gen_sudoku_puzzle sl rng st g None = Inr p"
    unfolding gen_sudoku_puzzle_complete[OF c p] nmax_idx_init_None using K[of sl "- 1"] by simp
  show "(\<exists>p. gen_sudoku_puzzle sl rng st g r = Inr p)
        \<or> gen_sudoku_puzzle sl rng st g r = Inl OverflowError"
  proof (cases "nmax_idx_init r ?n0")
    case (Inl e)
    then have "e = OverflowError" using nmax_idx_init_cases[of r ?n0] by simp
    then show ?thesis unfolding gen_sudoku_puzzle_complete[OF c p] using Inl by simp
  next
    case (Inr cap)
    then show ?thesis unfolding gen_sudoku_puzzle_complete[OF c p] using K[of sl cap] by simp
  qed
qed

text \<open>A 4x4 array with a repeated digit in its first row, and a complete grid.\<close>

theorem gen_sudoku_puzzle_precondition_witness:
  "(\<exists>e. gen_sudoku_puzzle ascending id_rng () [[1, 1, 3, 4], [3, 4, 1, 2], [2, 1, 4, 3], [4, 3, 2, 1]] None
          = Inl e \<and> invalid_solution e)
   \<and> complete_grid 4 [[1, 2, 3, 4], [3, 4, 1, 2], [2, 1, 4, 3], [4, 3, 2, 1]]
   \<and> (\<exists>p. gen_sudoku_puzzle ascending id_rng () [[1, 2, 3, 4], [3, 4, 1, 2], [2, 1, 4, 3], [4, 3, 2, 1]] None
         = Inr p)"
proof -
  let ?b = "[[1, 1, 3, 4], [3, 4, 1, 2], [2, 1, 4, 3], [4, 3, 2, 1]] :: grid"
  let ?g = "[[1, 2, 3, 4], [3, 4, 1, 2], [2, 1, 4, 3], [4, 3, 2, 1]] :: grid"
  have hb: "is_ndarray ?b" "concat ?b \<noteq> []" by code_simp+
  have rb: "\<exists>row \<in> set ?b. card (set row) \<noteq> shape0 ?b" by code_simp
  have hg: "is_ndarray ?g" "concat ?g \<noteq> []" by code_simp+
  have sg: "shape0 ?g = 4" by code_simp
  have cg: "complete_grid 4 ?g" by code_simp
  then have cg': "complete_grid (shape0 ?g) ?g" unfolding sg .
  from gen_sudoku_puzzle_precondition[OF hb, where sl=ascending and rng=id_rng and st="()" and r=None] rb
  have 1: "\<exists>e. gen_sudoku_puzzle ascending id_rng () ?b None = Inl e \<and> invalid_solution e" by blast
  from gen_sudoku_puzzle_precondition[OF hg, where sl=ascending and rng=id_rng and st="()" and r=None] cg' perm_rng_id
  have 2: "\<exists>p. gen_sudoku_puzzle ascending id_rng () ?g None = Inr p" by blast
  from 1 cg 2 show ?thesis by blast
qed

text \<open>
  Claim C6 as stated fails: every row of this array is a permutation of \<open>1..4\<close>, every column
  holds one digit four times, and the call returns without an error.
\<close>

theorem gen_sudoku_puzzle_precondition_counterexample:
  "\<not> complete_grid 4 [[1, 2, 3, 4], [1, 2, 3, 4], [1, 2, 3, 4], [1, 2, 3, 4]]
   \<and> gen_sudoku_puzzle ascending id_rng () [[1, 2, 3, 4], [1, 2, 3, 4], [1, 2, 3, 4], [1, 2, 3, 4]] None
     = Inr [[1, 2, 3, 4], [1, 2, 3, 4], [1, 2, 3, 4], [1, 2, 3, 4]]"
  by code_simp

end
